theory Spec2Isabelle
  imports Main "HOL-Library.Word" "HOL-Library.AList" "HOL-Library.List_Lexorder"
begin

section \<open>Data model of the Merkle radix trie (x/merkledb)\<close>

type_synonym byte = "8 word"
type_synonym bytes = "byte list"

text \<open>
  \<open>ids.ID\<close> is a 32 byte array; \<open>ids.Empty\<close> is its zero value.
\<close>

type_synonym ident = bytes

definition HashLength :: nat where
  "HashLength = 32"

definition ids_Empty :: ident where
  "ids_Empty = replicate 32 0"

subsection \<open>Key\<close>

text \<open>
  Modelled from the spec: the type \<open>Key\<close> and its methods (key.go) are not among the
  source files. The spec gives a key as an immutable sequence of tokens with length,
  \<open>Token(i)\<close>, \<open>Take(n)\<close>, \<open>Skip(n)\<close>, \<open>Extend(t, suffix)\<close> and \<open>HasPrefix\<close>, and writes
  the algorithms with token counts (\<open>K.skip(|Kc|+1)\<close>). A key is the list of its
  tokens. The source counts \<open>Key.length\<close> in bits and steps by \<open>t.tokenSize\<close> bits per
  token; here lengths and offsets count tokens, so the source's \<open>x.length + t.tokenSize\<close>
  reads \<open>length x + 1\<close>. A token is the \<open>byte\<close> that indexes \<open>node.children\<close>.
\<close>

type_synonym token = byte
type_synonym Key = "token list"

definition Token :: "Key \<Rightarrow> nat \<Rightarrow> token" where
  "Token k i = k ! i"

definition Take :: "Key \<Rightarrow> nat \<Rightarrow> Key" where
  "Take k n = take n k"

definition Skip :: "Key \<Rightarrow> nat \<Rightarrow> Key" where
  "Skip k n = drop n k"

definition ToToken :: "byte \<Rightarrow> Key" where
  "ToToken b = [b]"

definition Extend :: "Key \<Rightarrow> Key \<Rightarrow> Key \<Rightarrow> Key" where
  "Extend k t suffix = k @ t @ suffix"

text \<open>
  \<open>k.iteratedHasPrefix(prefix, offset, tokenSize)\<close>: \<open>prefix\<close> is compared token by
  token against \<open>k\<close> from \<open>offset\<close> on; a prefix longer than what is left of \<open>k\<close> does
  not match.
\<close>

definition iteratedHasPrefix :: "Key \<Rightarrow> Key \<Rightarrow> nat \<Rightarrow> bool" where
  "iteratedHasPrefix k prefix offset =
     (if int (length k) - int offset < int (length prefix) then False
      else take (length prefix) (drop offset k) = prefix)"

text \<open>
  \<open>ToKey\<close> at token size \<open>s\<close> (1, 2, 4 or 8 bits): every byte gives \<open>8 div s\<close> tokens,
  most significant first.
\<close>

definition byteTokens :: "nat \<Rightarrow> byte \<Rightarrow> token list" where
  "byteTokens s b =
     map (\<lambda>j. and (drop_bit (8 - s * (j + 1)) b) (mask s)) [0 ..< 8 div s]"

definition ToKey :: "nat \<Rightarrow> bytes \<Rightarrow> Key" where
  "ToKey s bs = concat (map (byteTokens s) bs)"

definition emptyKey :: Key where
  "emptyKey = []"

subsection \<open>Nodes (node.go)\<close>

record child =
  compressedKey :: Key
  id' :: ident
  hasValue :: bool

text \<open>
  \<open>node.value\<close> is a \<open>maybe.Maybe[[]byte]\<close>; \<open>node.children\<close> is a Go map from the
  token byte to the child entry, kept here as an association list with one entry per
  token (\<open>AList.update\<close> replaces or installs, \<open>AList.delete\<close> is Go's \<open>delete\<close>).
\<close>

record node =
  nvalue :: "bytes option"
  children :: "(token \<times> child) list"

definition newNode :: node where
  "newNode = \<lparr>nvalue = None, children = []\<rparr>"

definition node_hasValue :: "node \<Rightarrow> bool" where
  "node_hasValue n = (nvalue n \<noteq> None)"

text \<open>
  The hash primitive and the codec are outside the repository's files, so both are
  parameters: \<open>ComputeHash256\<close> of \<open>utils/hashing\<close>, and the composition
  \<open>hashing.ComputeHash256Array(codec.encodeHashValues(key, n, n.value))\<close> as \<open>hashValues\<close>.
\<close>

record externals =
  ComputeHash256 :: "bytes \<Rightarrow> bytes"
  hashValues :: "Key \<Rightarrow> (token \<times> child) list \<Rightarrow> bytes option \<Rightarrow> ident"

definition calculateID :: "externals \<Rightarrow> node \<Rightarrow> Key \<Rightarrow> ident" where
  "calculateID ext n key = hashValues ext key (children n) (nvalue n)"

definition getValueDigest :: "externals \<Rightarrow> bytes option \<Rightarrow> bytes option" where
  "getValueDigest ext val =
     (case val of
        None \<Rightarrow> val
      | Some v \<Rightarrow> if length v < HashLength then val else Some (ComputeHash256 ext v))"

definition setValue :: "node \<Rightarrow> bytes option \<Rightarrow> node" where
  "setValue n val = n\<lparr>nvalue := val\<rparr>"

definition setChildEntry :: "node \<Rightarrow> token \<Rightarrow> child \<Rightarrow> node" where
  "setChildEntry n index childEntry = n\<lparr>children := AList.update index childEntry (children n)\<rparr>"

record ProofNode =
  pn_Key :: Key
  pn_Children :: "(token \<times> ident) list"
  pn_ValueOrHash :: "bytes option"

definition asProofNode :: "externals \<Rightarrow> node \<Rightarrow> Key \<Rightarrow> bytes option \<Rightarrow> ProofNode" where
  "asProofNode ext n key val =
     \<lparr>pn_Key = key,
      pn_Children = map (\<lambda>(index, entry). (index, id' entry)) (children n),
      pn_ValueOrHash = getValueDigest ext val\<rparr>"

subsection \<open>Errors\<close>

text \<open>
  The error values of trieView.go, \<open>ErrInvalidMaxLength\<close> wrapped with the offending
  length, \<open>database.ErrNotFound\<close>, \<open>database.ErrClosed\<close> for a failure of the underlying
  database, and Go's run-time panic on a nil \<open>*node\<close>.
\<close>

datatype error =
    ErrCommitted
  | ErrInvalid
  | ErrPartialByteLengthWithValue
  | ErrGetPathToFailure
  | ErrStartAfterEnd
  | ErrNoValidRoot
  | ErrParentNotDatabase
  | ErrNodesAlreadyCalculated
  | ErrInvalidMaxLength int
  | ErrNotFound
  | ErrClosed
  | NilPointerDereference


subsection \<open>The view (trieView.go)\<close>

text \<open>
  Go holds nodes by pointer (\<open>*node\<close>) and mutates them in place, and the same node is
  reached through \<open>t.root\<close>, through \<open>t.changes.nodes[key].after\<close> and through local
  variables. The model keeps a store from addresses to nodes in the view (\<open>heap\<close>, with
  the number of \<open>allocated\<close> cells); a \<open>*node\<close> is an address, a nil pointer is \<open>None\<close>.
\<close>

type_synonym addr = nat

record 'a change =
  before :: 'a
  after :: 'a

record changeSummary =
  rootID :: ident
  nodes :: "(Key \<times> addr option change) list"
  values' :: "(Key \<times> bytes option change) list"

definition newChangeSummary :: changeSummary where
  "newChangeSummary = \<lparr>rootID = ids_Empty, nodes = [], values' = []\<rparr>"

text \<open>
  The parent of a view is a value of the interface \<open>TrieView\<close>: another view or the
  database. A view calls two of its methods, \<open>getValue\<close> and \<open>getEditableNode\<close> (which
  returns a clone).
\<close>

record TrieView =
  iface_getValue :: "Key \<Rightarrow> error + bytes option"
  iface_getEditableNode :: "Key \<Rightarrow> bool \<Rightarrow> error + node"

text \<open>
  The locks, the tracer, the metrics and the list of child views are left out: the
  model runs one goroutine.
\<close>

record trieView =
  committed :: bool
  nodesAlreadyCalculated :: bool
  calculateNodesOnce :: bool
  invalidated :: bool
  parentTrie :: TrieView
  changes :: changeSummary
  root :: addr
  heap :: "addr \<Rightarrow> node"
  allocated :: nat
  tokenSize :: nat

definition alloc :: "trieView \<Rightarrow> node \<Rightarrow> addr \<times> trieView" where
  "alloc t n = (allocated t, t\<lparr>heap := (heap t)(allocated t := n), allocated := Suc (allocated t)\<rparr>)"

definition modify :: "trieView \<Rightarrow> addr \<Rightarrow> (node \<Rightarrow> node) \<Rightarrow> trieView" where
  "modify t a f = t\<lparr>heap := (heap t)(a := f (heap t a))\<rparr>"

definition set_nodes :: "trieView \<Rightarrow> (Key \<times> addr option change) list \<Rightarrow> trieView" where
  "set_nodes t ns = t\<lparr>changes := (changes t)\<lparr>nodes := ns\<rparr>\<rparr>"

definition set_values :: "trieView \<Rightarrow> (Key \<times> bytes option change) list \<Rightarrow> trieView" where
  "set_values t vs = t\<lparr>changes := (changes t)\<lparr>values' := vs\<rparr>\<rparr>"

definition isInvalid :: "trieView \<Rightarrow> bool" where
  "isInvalid t = invalidated t"

definition getParentTrie :: "trieView \<Rightarrow> TrieView" where
  "getParentTrie t = parentTrie t"

text \<open>
  \<open>getValue\<close> reads \<open>t.isInvalid()\<close> twice, before and after the call to the parent. An
  ancestor that changes invalidates the view from another goroutine while that call
  runs, so what the second read returns is the parameter \<open>invalidatedAfter\<close>; code that
  runs with no such interference passes \<open>isInvalid t\<close>.
\<close>

definition getValue :: "trieView \<Rightarrow> bool \<Rightarrow> Key \<Rightarrow> error + bytes option" where
  "getValue t invalidatedAfter key =
     (if isInvalid t then Inl ErrInvalid
      else case map_of (values' (changes t)) key of
        Some change \<Rightarrow> Inr (after change)
      | None \<Rightarrow>
         (case iface_getValue (getParentTrie t) key of
            Inl err \<Rightarrow> Inl err
          | Inr val \<Rightarrow> if invalidatedAfter then Inl ErrInvalid else Inr val))"

definition recordValueChange :: "trieView \<Rightarrow> Key \<Rightarrow> bytes option \<Rightarrow> error option \<times> trieView" where
  "recordValueChange t key val =
     (if nodesAlreadyCalculated t then (Some ErrNodesAlreadyCalculated, t)
      else case map_of (values' (changes t)) key of
        Some existing \<Rightarrow>
          (None, set_values t (AList.update key (existing\<lparr>after := val\<rparr>) (values' (changes t))))
      | None \<Rightarrow>
         (case iface_getValue (getParentTrie t) key of
            Inl err \<Rightarrow> (Some err, t)
          | Inr b \<Rightarrow>
              (None, set_values t (AList.update key \<lparr>before = b, after = val\<rparr> (values' (changes t))))))"

definition recordKeyChange :: "trieView \<Rightarrow> Key \<Rightarrow> addr option \<Rightarrow> bool \<Rightarrow> error option \<times> trieView" where
  "recordKeyChange t key aft isNew =
     (if nodesAlreadyCalculated t then (Some ErrNodesAlreadyCalculated, t)
      else case map_of (nodes (changes t)) key of
        Some existing \<Rightarrow>
          (None, set_nodes t (AList.update key (existing\<lparr>after := aft\<rparr>) (nodes (changes t))))
      | None \<Rightarrow>
         if isNew then
           (None, set_nodes t (AList.update key \<lparr>before = None, after = aft\<rparr> (nodes (changes t))))
         else
           (case iface_getValue (getParentTrie t) key of
              Inl err \<Rightarrow> (Some err, t)
            | Inr val \<Rightarrow>
               (case iface_getEditableNode (getParentTrie t) key (val \<noteq> None) of
                  Inl err \<Rightarrow>
                    if err \<noteq> ErrNotFound then (Some err, t)
                    else (None, set_nodes t
                            (AList.update key \<lparr>before = None, after = aft\<rparr> (nodes (changes t))))
                | Inr n \<Rightarrow>
                    (case alloc t n of (b, t1) \<Rightarrow>
                       (None, set_nodes t1
                          (AList.update key \<lparr>before = Some b, after = aft\<rparr> (nodes (changes t1))))))))"

definition recordNewNode :: "trieView \<Rightarrow> Key \<Rightarrow> addr \<Rightarrow> error option \<times> trieView" where
  "recordNewNode t key aft = recordKeyChange t key (Some aft) True"

definition recordNodeChange :: "trieView \<Rightarrow> Key \<Rightarrow> addr \<Rightarrow> error option \<times> trieView" where
  "recordNodeChange t key aft = recordKeyChange t key (Some aft) False"

definition recordNodeDeleted :: "trieView \<Rightarrow> Key \<Rightarrow> addr \<Rightarrow> error option \<times> trieView" where
  "recordNodeDeleted t key aft =
     (if length key = 0 then recordKeyChange t key (Some aft) False
      else recordKeyChange t key None False)"

definition getNode :: "trieView \<Rightarrow> Key \<Rightarrow> bool \<Rightarrow> (error + addr) \<times> trieView" where
  "getNode t key hv =
     (case map_of (nodes (changes t)) key of
        Some nodeChange \<Rightarrow>
          (case after nodeChange of
             None \<Rightarrow> (Inl ErrNotFound, t)
           | Some a \<Rightarrow> (Inr a, t))
      | None \<Rightarrow>
         (case iface_getEditableNode (getParentTrie t) key hv of
            Inl err \<Rightarrow> (Inl err, t)
          | Inr parentTrieNode \<Rightarrow> (case alloc t parentTrieNode of (a, t1) \<Rightarrow> (Inr a, t1))))"

text \<open>
  \<open>getEditableNode\<close> returns a clone, here the node's value; the cell that \<open>getNode\<close> may
  have allocated for a node of the parent is not kept by the caller.
\<close>

definition getEditableNode :: "trieView \<Rightarrow> bool \<Rightarrow> Key \<Rightarrow> bool \<Rightarrow> error + node" where
  "getEditableNode t invalidatedAfter key hadValue =
     (if isInvalid t then Inl ErrInvalid
      else case getNode t key hadValue of
        (Inl err, t1) \<Rightarrow> Inl err
      | (Inr a, t1) \<Rightarrow> if invalidatedAfter then Inl ErrInvalid else Inr (heap t1 a))"

subsection \<open>Walking the trie\<close>

type_synonym 'a visitor = "Key \<Rightarrow> addr \<Rightarrow> 'a \<Rightarrow> trieView \<Rightarrow> error option \<times> 'a \<times> trieView"

text \<open>
  \<open>visitPathToKey\<close> takes a closure that assigns variables of its caller; the model
  threads them as the accumulator \<open>acc\<close>. \<open>visitLoop\<close> is the \<open>for\<close> loop.
\<close>

function visitLoop :: "Key \<Rightarrow> 'a visitor \<Rightarrow> Key \<Rightarrow> addr \<Rightarrow> 'a \<Rightarrow> trieView \<Rightarrow> error option \<times> 'a \<times> trieView" where
  "visitLoop key visitNode currentKey currentNode acc t =
     (if length currentKey < length key then
        (case map_of (children (heap t currentNode)) (Token key (length currentKey)) of
           None \<Rightarrow> (None, acc, t)
         | Some nextChildEntry \<Rightarrow>
            if \<not> iteratedHasPrefix key (compressedKey nextChildEntry) (length currentKey + 1)
            then (None, acc, t)
            else
              (case getNode t (Take key (length currentKey + 1 + length (compressedKey nextChildEntry)))
                      (hasValue nextChildEntry) of
                 (Inl err, t1) \<Rightarrow> (Some err, acc, t1)
               | (Inr n, t1) \<Rightarrow>
                  (case visitNode (Take key (length currentKey + 1 + length (compressedKey nextChildEntry))) n acc t1 of
                     (Some err, acc2, t2) \<Rightarrow> (Some err, acc2, t2)
                   | (None, acc2, t2) \<Rightarrow>
                       visitLoop key visitNode
                         (Take key (length currentKey + 1 + length (compressedKey nextChildEntry))) n acc2 t2)))
      else (None, acc, t))"
  by pat_completeness auto
termination
  by (relation "measure (\<lambda>(key, visitNode, currentKey, currentNode, acc, t). length key - length currentKey)")
     (auto simp: Take_def iteratedHasPrefix_def split: if_splits)

declare visitLoop.simps [simp del]

definition visitPathToKey :: "trieView \<Rightarrow> Key \<Rightarrow> 'a visitor \<Rightarrow> 'a \<Rightarrow> error option \<times> 'a \<times> trieView" where
  "visitPathToKey t key visitNode acc =
     (case visitNode emptyKey (root t) acc t of
        (Some err, acc1, t1) \<Rightarrow> (Some err, acc1, t1)
      | (None, acc1, t1) \<Rightarrow> visitLoop key visitNode emptyKey (root t) acc1 t1)"


subsection \<open>Structural mutation: insert, remove, path compression\<close>

function getLengthOfCommonPrefixFrom :: "Key \<Rightarrow> Key \<Rightarrow> nat \<Rightarrow> nat \<Rightarrow> nat" where
  "getLengthOfCommonPrefixFrom first second secondOffset commonIndex =
     (if length first > commonIndex \<and> length second > commonIndex + secondOffset
         \<and> Token first commonIndex = Token second (commonIndex + secondOffset)
      then getLengthOfCommonPrefixFrom first second secondOffset (commonIndex + 1)
      else commonIndex)"
  by pat_completeness auto
termination
  by (relation "measure (\<lambda>(first, second, secondOffset, commonIndex). length first - commonIndex)") auto

declare getLengthOfCommonPrefixFrom.simps [simp del]

definition getLengthOfCommonPrefix :: "Key \<Rightarrow> Key \<Rightarrow> nat \<Rightarrow> nat" where
  "getLengthOfCommonPrefix first second secondOffset =
     getLengthOfCommonPrefixFrom first second secondOffset 0"

text \<open>The closure of \<open>insert\<close>: it keeps the last key and node visited.\<close>

definition insertVisit :: "(Key \<times> addr option) visitor" where
  "insertVisit key n acc t =
     (case recordNodeChange t key n of (err, t1) \<Rightarrow> (err, (key, Some n), t1))"

definition insert :: "trieView \<Rightarrow> Key \<Rightarrow> bytes option \<Rightarrow> (error + addr) \<times> trieView" where
  "insert t key val =
     (if nodesAlreadyCalculated t then (Inl ErrNodesAlreadyCalculated, t)
      else case recordValueChange t key val of
        (Some err, t1) \<Rightarrow> (Inl err, t1)
      | (None, t1) \<Rightarrow>
         (case visitPathToKey t1 key insertVisit (emptyKey, None) of
            (Some err, acc, t2) \<Rightarrow> (Inl err, t2)
          | (None, (closestKey, None), t2) \<Rightarrow> (Inl NilPointerDereference, t2)
          | (None, (closestKey, Some closestNode), t2) \<Rightarrow>
             if closestKey = key then (Inr closestNode, modify t2 closestNode (\<lambda>n. setValue n val))
             else
               (case map_of (children (heap t2 closestNode)) (Token key (length closestKey)) of
                  None \<Rightarrow>
                    (case alloc t2 newNode of (newN, t3) \<Rightarrow>
                       (case recordNewNode
                               (modify (modify t3 newN (\<lambda>n. setValue n val)) closestNode
                                  (\<lambda>n. setChildEntry n (Token key (length closestKey))
                                     \<lparr>compressedKey = Skip key (length closestKey + 1),
                                      id' = ids_Empty, hasValue = False\<rparr>))
                               key newN of
                          (Some err, t4) \<Rightarrow> (Inl err, t4)
                        | (None, t4) \<Rightarrow> (Inr newN, t4)))
                | Some existingChildEntry \<Rightarrow>
                    (let commonPrefixLength =
                           getLengthOfCommonPrefix (compressedKey existingChildEntry) key (length closestKey + 1)
                     in
                     if length (compressedKey existingChildEntry) \<le> commonPrefixLength
                     then (Inl ErrGetPathToFailure, t2)
                     else
                       (case alloc t2 newNode of (branchNode, t3) \<Rightarrow>
                        (let branchKey = Take key (length closestKey + 1 + commonPrefixLength);
                             t4 = modify t3 closestNode
                                    (\<lambda>n. setChildEntry n (Token branchKey (length closestKey))
                                       \<lparr>compressedKey = Skip branchKey (length closestKey + 1),
                                        id' = ids_Empty, hasValue = False\<rparr>);
                             addExisting = (\<lambda>s. modify s branchNode
                                    (\<lambda>n. setChildEntry n
                                       (Token (compressedKey existingChildEntry) commonPrefixLength)
                                       \<lparr>compressedKey =
                                          Skip (compressedKey existingChildEntry) (commonPrefixLength + 1),
                                        id' = id' existingChildEntry,
                                        hasValue = hasValue existingChildEntry\<rparr>))
                         in
                         if length key = length branchKey then
                           (case recordNewNode (addExisting (modify t4 branchNode (\<lambda>n. setValue n val)))
                                   branchKey branchNode of
                              (Some err, t5) \<Rightarrow> (Inl err, t5)
                            | (None, t5) \<Rightarrow> (Inr branchNode, t5))
                         else
                           (case alloc t4 newNode of (newN, t5) \<Rightarrow>
                              (case recordNewNode
                                      (modify (modify t5 newN (\<lambda>n. setValue n val)) branchNode
                                         (\<lambda>n. setChildEntry n (Token key (length branchKey))
                                            \<lparr>compressedKey = Skip key (length branchKey + 1),
                                             id' = ids_Empty, hasValue = False\<rparr>))
                                      key newN of
                                 (Some err, t6) \<Rightarrow> (Inl err, t6)
                               | (None, t6) \<Rightarrow>
                                  (case recordNewNode (addExisting t6) branchKey branchNode of
                                     (Some err, t7) \<Rightarrow> (Inl err, t7)
                                   | (None, t7) \<Rightarrow> (Inr newN, t7))))))))))"

text \<open>
  \<open>compressNodePath\<close>. The loop over \<open>node.children\<close> runs once (the map has one entry)
  and leaves the entry and the key of the only child.
\<close>

definition onlyChild :: "Key \<Rightarrow> (token \<times> child) list \<Rightarrow> Key \<times> child" where
  "onlyChild nodeKey cs =
     fold (\<lambda>(index, entry) acc. (Extend nodeKey (ToToken index) (compressedKey entry), entry)) cs
       (emptyKey, \<lparr>compressedKey = emptyKey, id' = ids_Empty, hasValue = False\<rparr>)"

definition compressNodePath ::
    "trieView \<Rightarrow> addr option \<Rightarrow> Key \<Rightarrow> addr \<Rightarrow> Key \<Rightarrow> error option \<times> trieView" where
  "compressNodePath t parent parentKey n nodeKey =
     (if nodesAlreadyCalculated t then (Some ErrNodesAlreadyCalculated, t)
      else case getValue t (isInvalid t) nodeKey of
        Inl err \<Rightarrow> (Some err, t)
      | Inr val \<Rightarrow>
         (case parent of
            None \<Rightarrow> (None, t)
          | Some p \<Rightarrow>
             if length (children (heap t n)) \<noteq> 1 \<or> val \<noteq> None then (None, t)
             else
               (case recordNodeDeleted t nodeKey n of
                  (Some err, t1) \<Rightarrow> (Some err, t1)
                | (None, t1) \<Rightarrow>
                   (case onlyChild nodeKey (children (heap t1 n)) of (childKey, childEntry) \<Rightarrow>
                      recordNodeChange
                        (modify t1 p
                           (\<lambda>m. setChildEntry m (Token childKey (length parentKey))
                              \<lparr>compressedKey = Skip childKey (length parentKey + 1),
                               id' = id' childEntry, hasValue = hasValue childEntry\<rparr>))
                        parentKey p))))"

text \<open>
  The closure of \<open>remove\<close> shifts the last three keys and nodes visited:
  (grandParentKey, parentKey, nodeToDeleteKey, grandParent, parent, nodeToDelete).
\<close>

type_synonym removeVars = "Key \<times> Key \<times> Key \<times> addr option \<times> addr option \<times> addr option"

definition removeVisit :: "removeVars visitor" where
  "removeVisit key n acc t =
     (case acc of (grandParentKey, parentKey, nodeToDeleteKey, grandParent, parent, nodeToDelete) \<Rightarrow>
        (case recordNodeChange t key n of (err, t1) \<Rightarrow>
           (err, (parentKey, nodeToDeleteKey, key, parent, nodeToDelete, Some n), t1)))"

definition remove :: "trieView \<Rightarrow> Key \<Rightarrow> error option \<times> trieView" where
  "remove t key =
     (if nodesAlreadyCalculated t then (Some ErrNodesAlreadyCalculated, t)
      else case recordValueChange t key None of
        (Some err, t1) \<Rightarrow> (Some err, t1)
      | (None, t1) \<Rightarrow>
         (case map_of (values' (changes t1)) key of
            None \<Rightarrow> (None, t1)
          | Some val \<Rightarrow>
             if before val = None \<or> after val \<noteq> None then (None, t1)
             else
               (case visitPathToKey t1 key removeVisit
                       (emptyKey, emptyKey, emptyKey, None, None, None) of
                  (Some err, acc, t2) \<Rightarrow> (Some err, t2)
                | (None, (grandParentKey, parentKey, nodeToDeleteKey, grandParent, parent, None), t2) \<Rightarrow>
                    (Some NilPointerDereference, t2)
                | (None, (grandParentKey, parentKey, nodeToDeleteKey, grandParent, parent, Some nodeToDelete), t2) \<Rightarrow>
                    (let t3 = modify t2 nodeToDelete (\<lambda>n. setValue n None) in
                     if length (children (heap t3 nodeToDelete)) \<noteq> 0
                     then compressNodePath t3 parent parentKey nodeToDelete nodeToDeleteKey
                     else
                       (case recordNodeDeleted t3 nodeToDeleteKey nodeToDelete of
                          (Some err, t4) \<Rightarrow> (Some err, t4)
                        | (None, t4) \<Rightarrow>
                           (case parent of
                              Some p \<Rightarrow>
                                compressNodePath
                                  (modify t4 p
                                     (\<lambda>m. m\<lparr>children :=
                                          AList.delete (Token nodeToDeleteKey (length parentKey)) (children m)\<rparr>))
                                  grandParent grandParentKey p parentKey
                            | None \<Rightarrow> (None, t4)))))))"

subsection \<open>The database as a parent\<close>

text \<open>
  Modelled from the spec: \<open>merkleDB\<close> (db.go) is not among the source files. The spec
  gives the storage contract \<open>getNode(key, hasValue) \<rightarrow> Node | NotFound\<close>, and an absent
  value is an absent optional.
\<close>

record merkleDB =
  db_nodes :: "(Key \<times> node) list"
  db_values :: "(Key \<times> bytes) list"
  db_tokenSize :: nat

definition db_TrieView :: "merkleDB \<Rightarrow> TrieView" where
  "db_TrieView db =
     \<lparr>iface_getValue = (\<lambda>key. Inr (map_of (db_values db) key)),
      iface_getEditableNode = (\<lambda>key hv.
         case map_of (db_nodes db) key of None \<Rightarrow> Inl ErrNotFound | Some n \<Rightarrow> Inr n)\<rparr>"

text \<open>A view as the parent of another view, when nothing invalidates it meanwhile.\<close>

definition view_TrieView :: "trieView \<Rightarrow> TrieView" where
  "view_TrieView t =
     \<lparr>iface_getValue = getValue t (isInvalid t),
      iface_getEditableNode = getEditableNode t (isInvalid t)\<rparr>"


subsection \<open>Construction of a view\<close>

record BatchOp =
  op_Key :: bytes
  op_Value :: bytes
  op_Delete :: bool

text \<open>\<open>MapOps\<close> is a Go map from the key to the optional value; a list stands for it.\<close>

record ViewChanges =
  BatchOps :: "BatchOp list"
  MapOps :: "(bytes \<times> bytes option) list"
  ConsumeBytes :: bool

fun recordValueChanges :: "trieView \<Rightarrow> (Key \<times> bytes option) list \<Rightarrow> error option \<times> trieView" where
  "recordValueChanges t [] = (None, t)"
| "recordValueChanges t ((key, val) # ops) =
     (case recordValueChange t key val of
        (Some err, t1) \<Rightarrow> (Some err, t1)
      | (None, t1) \<Rightarrow> recordValueChanges t1 ops)"

text \<open>
  \<open>newTrieView\<close>: the root is a clone of the parent's root; every operation is recorded
  as a value change, the batch first and the map after it. Cloning the bytes of the
  caller has no counterpart here.
\<close>

definition newTrieView :: "merkleDB \<Rightarrow> TrieView \<Rightarrow> ViewChanges \<Rightarrow> error + trieView" where
  "newTrieView db parent chs =
     (case iface_getEditableNode parent emptyKey False of
        Inl err \<Rightarrow> if err = ErrNotFound then Inl ErrNoValidRoot else Inl err
      | Inr rootNode \<Rightarrow>
         (case recordValueChanges
                 \<lparr>committed = False, nodesAlreadyCalculated = False, calculateNodesOnce = False,
                  invalidated = False, parentTrie = parent, changes = newChangeSummary,
                  root = 0, heap = (\<lambda>a. newNode)(0 := rootNode), allocated = 1,
                  tokenSize = db_tokenSize db\<rparr>
                 (map (\<lambda>op. (ToKey (db_tokenSize db) (op_Key op),
                              if op_Delete op then None else Some (op_Value op))) (BatchOps chs)
                  @ map (\<lambda>(key, val). (ToKey (db_tokenSize db) key, val)) (MapOps chs)) of
            (Some err, t) \<Rightarrow> Inl err
          | (None, t) \<Rightarrow> Inr t))"


subsection \<open>Recomputing the node IDs\<close>

record nodeInfo =
  ni_key :: Key
  ni_id :: ident
  ni_hasValue :: bool

definition maxKeyLength :: "(Key \<times> 'a) list \<Rightarrow> nat" where
  "maxKeyLength ns = fold (\<lambda>(k, c) m. max (length k) m) ns 0"

lemma fold_max_ge: "m \<le> fold (\<lambda>(k, c) m. max (length k) m) ns (m::nat)"
proof (induction ns arbitrary: m)
  case Nil
  then show ?case by simp
next
  case (Cons a ns)
  have "m \<le> max (length (fst a)) m" by simp
  also have "\<dots> \<le> fold (\<lambda>(k, c) m. max (length k) m) ns (max (length (fst a)) m)"
    by (rule Cons.IH)
  finally show ?case by (simp add: case_prod_unfold)
qed

lemma fold_max_member:
  "(k, c) \<in> set ns \<Longrightarrow> length k \<le> fold (\<lambda>(k, c) m. max (length k) m) ns (m::nat)"
proof (induction ns arbitrary: m)
  case Nil
  then show ?case by simp
next
  case (Cons a ns)
  show ?case
  proof (cases "a = (k, c)")
    case True
    have "length k \<le> max (length k) m" by simp
    also have "\<dots> \<le> fold (\<lambda>(k, c) m. max (length k) m) ns (max (length k) m)"
      by (rule fold_max_ge)
    finally show ?thesis using True by simp
  next
    case False
    with Cons.prems have "(k, c) \<in> set ns" by simp
    from Cons.IH [OF this] show ?thesis by (simp add: case_prod_unfold)
  qed
qed

lemma map_of_maxKeyLength: "map_of ns k = Some c \<Longrightarrow> length k \<le> maxKeyLength ns"
  unfolding maxKeyLength_def by (rule fold_max_member) (erule map_of_SomeD)

text \<open>
  \<open>calculateNodeIDsHelper\<close> with the loop over the children of \<open>n\<close> as \<open>calculateChildIDs\<close>.
  The goroutines are run one after the other, in the order of the list (the run in which
  no permit of the semaphore is free); \<open>updated\<close> is the channel \<open>updatedChildren\<close>. The
  table \<open>ns\<close> is \<open>t.changes.nodes\<close>, which the helper reads and never writes
  (lemma \<open>calculateNodeIDsHelper_nodes\<close>).
\<close>

function calculateNodeIDsHelper ::
    "externals \<Rightarrow> (Key \<times> addr option change) list \<Rightarrow> trieView \<Rightarrow> Key \<Rightarrow> addr \<Rightarrow> (error + ident) \<times> trieView"
  and calculateChildIDs ::
    "externals \<Rightarrow> (Key \<times> addr option change) list \<Rightarrow> trieView \<Rightarrow> Key \<Rightarrow> (token \<times> child) list
       \<Rightarrow> nodeInfo list \<Rightarrow> (error + nodeInfo list) \<times> trieView" where
  "calculateNodeIDsHelper ext ns t key n =
     (case calculateChildIDs ext ns t key (children (heap t n)) [] of
        (Inl err, t1) \<Rightarrow> (Inl err, t1)
      | (Inr updated, t1) \<Rightarrow>
         (let t2 = fold (\<lambda>updatedChild s.
                      modify s n (\<lambda>m. setChildEntry m (Token (ni_key updatedChild) (length key))
                        \<lparr>compressedKey =
                           (case map_of (children m) (Token (ni_key updatedChild) (length key)) of
                              Some c \<Rightarrow> compressedKey c | None \<Rightarrow> emptyKey),
                         id' = ni_id updatedChild, hasValue = ni_hasValue updatedChild\<rparr>))
                    updated t1
          in (Inr (calculateID ext (heap t2 n) key), t2)))"
| "calculateChildIDs ext ns t key [] updated = (Inr updated, t)"
| "calculateChildIDs ext ns t key ((childIndex, c) # rest) updated =
     (case map_of ns (Extend key (ToToken childIndex) (compressedKey c)) of
        None \<Rightarrow> calculateChildIDs ext ns t key rest updated
      | Some childNodeChange \<Rightarrow>
         (case getValue t (isInvalid t) (Extend key (ToToken childIndex) (compressedKey c)) of
            Inl err \<Rightarrow> (Inl err, t)
          | Inr v \<Rightarrow>
             (case after childNodeChange of
                None \<Rightarrow> (Inl NilPointerDereference, t)
              | Some a \<Rightarrow>
                 (case calculateNodeIDsHelper ext ns t (Extend key (ToToken childIndex) (compressedKey c)) a of
                    (Inl err, t1) \<Rightarrow> (Inl err, t1)
                  | (Inr i, t1) \<Rightarrow>
                      calculateChildIDs ext ns t1 key rest
                        (updated @ [\<lparr>ni_key = Extend key (ToToken childIndex) (compressedKey c),
                                     ni_id = i, ni_hasValue = (nvalue (heap t1 a) \<noteq> None)\<rparr>])))))"
  by pat_completeness auto
termination
proof (relation "inv_image (less_than <*lex*> less_than)
    (\<lambda>x. case x of
       Inl (ext, ns, t, key, n) \<Rightarrow> (Suc (maxKeyLength ns) - length key, Suc (length (children (heap t n))))
     | Inr (ext, ns, t, key, cs, updated) \<Rightarrow> (Suc (maxKeyLength ns) - length key, length cs))", goal_cases)
  case 1
  show ?case by (intro wf_inv_image wf_lex_prod wf_less_than)
next
  case 2
  then show ?case by auto
next
  case 3
  then show ?case by auto
next
  case (4 ext ns t key childIndex c rest updated x2 x2a a)
  from 4(1) have "length (Extend key (ToToken childIndex) (compressedKey c)) \<le> maxKeyLength ns"
    by (rule map_of_maxKeyLength)
  then show ?case by (auto simp: Extend_def ToToken_def)
next
  case 5
  then show ?case by auto
qed


text \<open>
  \<open>calculateNodeIDs\<close>. \<open>calculateNodesOnce\<close> is the \<open>sync.Once\<close>: a second call does nothing
  and returns nil. The deferred \<open>nodesAlreadyCalculated.Set(true)\<close> runs on every return
  after the first validity check. Go leaves the order in which \<open>range\<close> yields the keys of
  the map \<open>t.changes.values\<close> unspecified: the keys come in the order of the list \<open>order\<close>.
\<close>

fun applyValueChanges :: "trieView \<Rightarrow> Key list \<Rightarrow> error option \<times> trieView" where
  "applyValueChanges t [] = (None, t)"
| "applyValueChanges t (key # keys) =
     (case map_of (values' (changes t)) key of
        None \<Rightarrow> applyValueChanges t keys
      | Some change \<Rightarrow>
         if after change = None then
           (case remove t key of
              (Some err, t1) \<Rightarrow> (Some err, t1)
            | (None, t1) \<Rightarrow> applyValueChanges t1 keys)
         else
           (case insert t key (after change) of
              (Inl err, t1) \<Rightarrow> (Some err, t1)
            | (Inr n, t1) \<Rightarrow> applyValueChanges t1 keys))"

definition calculateNodeIDs :: "externals \<Rightarrow> Key list \<Rightarrow> trieView \<Rightarrow> error option \<times> trieView" where
  "calculateNodeIDs ext order t =
     (if calculateNodesOnce t then (None, t)
      else if isInvalid t then (Some ErrInvalid, t\<lparr>calculateNodesOnce := True\<rparr>)
      else
        (case applyValueChanges (t\<lparr>calculateNodesOnce := True\<rparr>) order of
           (Some err, t1) \<Rightarrow> (Some err, t1\<lparr>nodesAlreadyCalculated := True\<rparr>)
         | (None, t1) \<Rightarrow>
            (case getValue t1 (isInvalid t1) emptyKey of
               Inl err \<Rightarrow> (Some err, t1\<lparr>nodesAlreadyCalculated := True\<rparr>)
             | Inr v \<Rightarrow>
                (case calculateNodeIDsHelper ext (nodes (changes t1)) t1 emptyKey (root t1) of
                   (Inl err, t2) \<Rightarrow>
                     (Some err, t2\<lparr>changes := (changes t2)\<lparr>rootID := ids_Empty\<rparr>,
                                  nodesAlreadyCalculated := True\<rparr>)
                 | (Inr i, t2) \<Rightarrow>
                     (if isInvalid t2 then Some ErrInvalid else None,
                      t2\<lparr>changes := (changes t2)\<lparr>rootID := i\<rparr>,
                         nodesAlreadyCalculated := True\<rparr>)))))"

definition GetMerkleRoot :: "externals \<Rightarrow> Key list \<Rightarrow> trieView \<Rightarrow> (error + ident) \<times> trieView" where
  "GetMerkleRoot ext order t =
     (case calculateNodeIDs ext order t of
        (Some err, t1) \<Rightarrow> (Inl err, t1)
      | (None, t1) \<Rightarrow> (Inr (rootID (changes t1)), t1))"

subsection \<open>Proofs\<close>

record Proof =
  proof_Key :: Key
  proof_Value :: "bytes option"
  proof_Path :: "ProofNode list"

record KeyValue =
  kv_Key :: bytes
  kv_Value :: bytes

record RangeProof =
  StartProof :: "ProofNode list"
  EndProof :: "ProofNode list"
  KeyValues :: "KeyValue list"

text \<open>The closure of \<open>getProof\<close>: (closestKey, closestNode, proof.Path).\<close>

definition proofVisit :: "externals \<Rightarrow> (Key \<times> addr option \<times> ProofNode list) visitor" where
  "proofVisit ext key n acc t =
     (case acc of (closestKey, closestNode, path) \<Rightarrow>
        (case getValue t (isInvalid t) key of
           Inl err \<Rightarrow> (Some err, (key, Some n, path), t)
         | Inr v \<Rightarrow>
             (None, (key, Some n, path @ [asProofNode ext (heap t n) key (nvalue (heap t n))]), t)))"

definition getProof :: "externals \<Rightarrow> trieView \<Rightarrow> bytes \<Rightarrow> (error + Proof) \<times> trieView" where
  "getProof ext t key =
     (case getValue t (isInvalid t) (ToKey (tokenSize t) key) of
        Inl err \<Rightarrow> (Inl err, t)
      | Inr val \<Rightarrow>
         (case visitPathToKey t (ToKey (tokenSize t) key) (proofVisit ext) (emptyKey, None, []) of
            (Some err, acc, t1) \<Rightarrow> (Inl err, t1)
          | (None, (closestKey, None, path), t1) \<Rightarrow> (Inl NilPointerDereference, t1)
          | (None, (closestKey, Some closestNode, path), t1) \<Rightarrow>
             if closestKey = ToKey (tokenSize t) key
             then (Inr \<lparr>proof_Key = ToKey (tokenSize t) key, proof_Value = val, proof_Path = path\<rparr>, t1)
             else
               (case map_of (children (heap t1 closestNode))
                       (Token (ToKey (tokenSize t) key) (length closestKey)) of
                  None \<Rightarrow>
                    (Inr \<lparr>proof_Key = ToKey (tokenSize t) key, proof_Value = val, proof_Path = path\<rparr>, t1)
                | Some c \<Rightarrow>
                   (let childKey = Extend closestKey
                          (ToToken (Token (ToKey (tokenSize t) key) (length closestKey))) (compressedKey c)
                    in
                    case getNode t1 childKey (hasValue c) of
                      (Inl err, t2) \<Rightarrow> (Inl err, t2)
                    | (Inr childNode, t2) \<Rightarrow>
                       (case getValue t2 (isInvalid t2) childKey of
                          Inl err \<Rightarrow> (Inl err, t2)
                        | Inr v \<Rightarrow>
                           if isInvalid t2 then (Inl ErrInvalid, t2)
                           else
                             (Inr \<lparr>proof_Key = ToKey (tokenSize t) key, proof_Value = val,
                                   proof_Path = path @
                                     [asProofNode ext (heap t2 childNode) childKey
                                        (nvalue (heap t2 childNode))]\<rparr>, t2))))))"

definition GetProof :: "externals \<Rightarrow> Key list \<Rightarrow> trieView \<Rightarrow> bytes \<Rightarrow> (error + Proof) \<times> trieView" where
  "GetProof ext order t key =
     (case calculateNodeIDs ext order t of
        (Some err, t1) \<Rightarrow> (Inl err, t1)
      | (None, t1) \<Rightarrow> getProof ext t1 key)"

text \<open>\<open>bytes.Compare\<close>: the lexicographic order of byte strings.\<close>

definition bytes_Compare :: "bytes \<Rightarrow> bytes \<Rightarrow> int" where
  "bytes_Compare a b = (if a < b then - 1 else if a = b then 0 else 1)"

text \<open>
  The iterator of a view (\<open>NewIteratorWithStart\<close>) is not among the source files. What
  \<open>GetRangeProof\<close> sees of it is the sequence of pairs that \<open>Next\<close>, \<open>Key\<close> and \<open>Value\<close> yield
  and the error that \<open>Error\<close> reports when the sequence ended by a failure.
\<close>

record iterator =
  it_pairs :: "(bytes \<times> bytes) list"
  it_Error :: "error option"

text \<open>
  Modelled from the spec: "Run an in-order iterator from \<open>start\<close> (inclusive)". The keys
  the iterator yields ascend strictly and none is below \<open>start\<close>; an absent \<open>start\<close> is
  the empty byte string, as \<open>start.Value()\<close> is.
\<close>

definition inOrderFrom :: "bytes option \<Rightarrow> iterator \<Rightarrow> bool" where
  "inOrderFrom start it =
     (sorted_wrt (\<lambda>a b. a < b) (map fst (it_pairs it))
      \<and> list_all (\<lambda>k. (case start of None \<Rightarrow> [] | Some s \<Rightarrow> s) \<le> k) (map fst (it_pairs it)))"

text \<open>
  The loop of \<open>GetRangeProof\<close> over the iterator. The second component tells whether the
  loop ended because \<open>it.Next()\<close> returned false.
\<close>

fun collectKeyValues ::
    "(bytes \<times> bytes) list \<Rightarrow> bytes option \<Rightarrow> int \<Rightarrow> KeyValue list \<Rightarrow> KeyValue list \<times> bool" where
  "collectKeyValues [] end' maxLength acc = (acc, True)"
| "collectKeyValues ((k, v) # rest) end' maxLength acc =
     (if int (length acc) < maxLength
         \<and> (case end' of None \<Rightarrow> True | Some e \<Rightarrow> bytes_Compare k e \<le> 0)
      then collectKeyValues rest end' maxLength (acc @ [\<lparr>kv_Key = k, kv_Value = v\<rparr>])
      else (acc, False))"

definition rootKey :: bytes where
  "rootKey = []"

definition stripCommon :: "ProofNode list \<Rightarrow> ProofNode list \<Rightarrow> ProofNode list" where
  "stripCommon startProof endProof =
     drop (length (takeWhile (\<lambda>(a, b). pn_Key a = pn_Key b) (zip startProof endProof))) startProof"

text \<open>
  The two middle steps of \<open>GetRangeProof\<close>: the end proof, for the greatest key emitted
  or else for \<open>end\<close>, and the start proof, stripped of the nodes it shares with the end
  proof.
\<close>

definition rangeEndProof ::
    "externals \<Rightarrow> trieView \<Rightarrow> KeyValue list \<Rightarrow> bytes option \<Rightarrow> (error + ProofNode list) \<times> trieView" where
  "rangeEndProof ext t keyValues end' =
     (if length keyValues > 0 then
        (case getProof ext t (kv_Key (last keyValues)) of
           (Inl err, t1) \<Rightarrow> (Inl err, t1)
         | (Inr endProof, t1) \<Rightarrow> (Inr (proof_Path endProof), t1))
      else if end' \<noteq> None then
        (case getProof ext t (the end') of
           (Inl err, t1) \<Rightarrow> (Inl err, t1)
         | (Inr endProof, t1) \<Rightarrow> (Inr (proof_Path endProof), t1))
      else (Inr [], t))"

definition rangeStartProof ::
    "externals \<Rightarrow> trieView \<Rightarrow> bytes option \<Rightarrow> ProofNode list \<Rightarrow> (error + ProofNode list) \<times> trieView" where
  "rangeStartProof ext t start endProof =
     (if start \<noteq> None then
        (case getProof ext t (the start) of
           (Inl err, t1) \<Rightarrow> (Inl err, t1)
         | (Inr startProof, t1) \<Rightarrow> (Inr (stripCommon (proof_Path startProof) endProof), t1))
      else (Inr [], t))"

definition GetRangeProof ::
    "externals \<Rightarrow> Key list \<Rightarrow> iterator \<Rightarrow> trieView \<Rightarrow> bytes option \<Rightarrow> bytes option \<Rightarrow> int
       \<Rightarrow> (error + RangeProof) \<times> trieView" where
  "GetRangeProof ext order it t start end' maxLength =
     (if start \<noteq> None \<and> end' \<noteq> None \<and> bytes_Compare (the start) (the end') = 1
      then (Inl ErrStartAfterEnd, t)
      else if maxLength \<le> 0 then (Inl (ErrInvalidMaxLength maxLength), t)
      else
        (case calculateNodeIDs ext order t of
           (Some err, t1) \<Rightarrow> (Inl err, t1)
         | (None, t1) \<Rightarrow>
            (case collectKeyValues (it_pairs it) end' maxLength [] of (keyValues, exhausted) \<Rightarrow>
               if exhausted \<and> it_Error it \<noteq> None then (Inl (the (it_Error it)), t1)
               else
                 (case rangeEndProof ext t1 keyValues end' of
                    (Inl err, t2) \<Rightarrow> (Inl err, t2)
                  | (Inr endProof, t2) \<Rightarrow>
                     (case rangeStartProof ext t2 start endProof of
                        (Inl err, t3) \<Rightarrow> (Inl err, t3)
                      | (Inr startProof, t3) \<Rightarrow>
                         (if length startProof = 0 \<and> length endProof = 0 \<and> length keyValues = 0 then
                            (case getProof ext t3 rootKey of
                               (Inl err, t4) \<Rightarrow> (Inl err, t4)
                             | (Inr rootProof, t4) \<Rightarrow>
                                 if isInvalid t4 then (Inl ErrInvalid, t4)
                                 else (Inr \<lparr>StartProof = startProof, EndProof = proof_Path rootProof,
                                            KeyValues = keyValues\<rparr>, t4))
                          else if isInvalid t3 then (Inl ErrInvalid, t3)
                          else (Inr \<lparr>StartProof = startProof, EndProof = endProof,
                                     KeyValues = keyValues\<rparr>, t3)))))))"

subsection \<open>Sequences of mutations\<close>

text \<open>
  A sequence of calls of \<open>insert\<close> and \<open>remove\<close> on a view. A call that fails leaves the
  view as far as it came; the next call runs on that view.
\<close>

datatype mutation = Insert Key "bytes option" | Remove Key

fun applyMutation :: "trieView \<Rightarrow> mutation \<Rightarrow> trieView" where
  "applyMutation t (Insert key val) = snd (insert t key val)"
| "applyMutation t (Remove key) = snd (remove t key)"

definition applyMutations :: "trieView \<Rightarrow> mutation list \<Rightarrow> trieView" where
  "applyMutations t ms = foldl applyMutation t ms"

text \<open>
  The entry of the root key in \<open>t.changes.nodes\<close> is not a deletion: there is no entry,
  or its \<open>after\<close> is not nil.
\<close>

definition rootNotDeleted :: "trieView \<Rightarrow> bool" where
  "rootNotDeleted t =
     (case map_of (nodes (changes t)) emptyKey of None \<Rightarrow> True | Some c \<Rightarrow> after c \<noteq> None)"

text \<open>
  What every step of a mutation leaves as it was: the parent, the root pointer, and an
  entry of the root key that is not a deletion.
\<close>

definition frame :: "trieView \<Rightarrow> trieView \<Rightarrow> bool" where
  "frame t t' =
     (parentTrie t' = parentTrie t \<and> root t' = root t
      \<and> nodesAlreadyCalculated t' = nodesAlreadyCalculated t
      \<and> (rootNotDeleted t \<longrightarrow> rootNotDeleted t'))"

text \<open>
  The parent never answers with \<open>ErrGetPathToFailure\<close>: the error is raised by \<open>insert\<close>
  alone, and a parent's \<open>getValue\<close> and \<open>getEditableNode\<close> do not call \<open>insert\<close>.
\<close>

definition noPathFailure :: "TrieView \<Rightarrow> bool" where
  "noPathFailure p =
     ((\<forall>key. iface_getValue p key \<noteq> Inl ErrGetPathToFailure)
      \<and> (\<forall>key hv. iface_getEditableNode p key hv \<noteq> Inl ErrGetPathToFailure))"

text \<open>
  Where the walk of \<open>insert\<close> stops: the key reached is a prefix of the key, and when it
  is shorter, what \<open>visitPathToKey\<close> has tested holds for the node reached: a child at
  the next token has a compressed key that is no prefix of the rest of the key.
\<close>

definition stopsAt :: "Key \<Rightarrow> Key \<Rightarrow> addr \<Rightarrow> trieView \<Rightarrow> bool" where
  "stopsAt key ck cn t =
     (ck = take (length ck) key
      \<and> (length ck < length key \<longrightarrow>
           (\<forall>c. map_of (children (heap t cn)) (Token key (length ck)) = Some c
                \<longrightarrow> \<not> iteratedHasPrefix key (compressedKey c) (length ck + 1))))"


section \<open>The stateless view (stateless.go)\<close>

text \<open>
  Modelled from the spec: \<open>stateless.go\<close> is written against the type \<open>Node\<close> (a node that
  carries its own key and ID), the type \<open>Path\<close> and the \<open>trieViewVerifierIntercepter\<close>, none
  of which is among the source files. The spec says that the stateless view is a
  parallel implementation of the view whose "hashing and structural-mutation algorithms
  are otherwise identical", with nodes of an optional value and children keyed by
  token (section 4.2). The methods of \<open>Node\<close> below are what stateless.go calls, with the
  meaning their names and their use give them: \<open>addChild\<close> enters the child under the
  token that follows the parent's key, with the rest of the child's key as compressed
  path and the child's ID; \<open>removeChild\<close> deletes that entry; \<open>getSingleChildPath\<close> is the
  key of the only child. A \<open>Path\<close> is a \<open>Key\<close>: the list of its tokens.
\<close>

record child_sv =
  compressedPath :: Key
  id_sv :: ident

record Node =
  N_key :: Key
  N_id :: ident
  N_value :: "bytes option"
  N_children :: "(token \<times> child_sv) list"

definition hasValue_sv :: "Node \<Rightarrow> bool" where
  "hasValue_sv n = (N_value n \<noteq> None)"

definition addChildWithoutNode :: "Node \<Rightarrow> token \<Rightarrow> Key \<Rightarrow> ident \<Rightarrow> Node" where
  "addChildWithoutNode n index cp childID =
     n\<lparr>N_children := AList.update index \<lparr>compressedPath = cp, id_sv = childID\<rparr> (N_children n)\<rparr>"

definition addChild :: "Node \<Rightarrow> Node \<Rightarrow> Node" where
  "addChild n c =
     addChildWithoutNode n (N_key c ! length (N_key n)) (drop (length (N_key n) + 1) (N_key c)) (N_id c)"

definition removeChild :: "Node \<Rightarrow> Node \<Rightarrow> Node" where
  "removeChild n c = n\<lparr>N_children := AList.delete (N_key c ! length (N_key n)) (N_children n)\<rparr>"

definition getSingleChildPath :: "Node \<Rightarrow> Key" where
  "getSingleChildPath n =
     (case N_children n of
        [] \<Rightarrow> []
      | (index, entry) # rest \<Rightarrow> N_key n @ [index] @ compressedPath entry)"

definition RootPath :: Key where
  "RootPath = []"

text \<open>
  The parent of a stateless view, as \<open>getParentTrie\<close> returns it: the intercepter, of
  which the view calls \<open>getValue\<close> and \<open>getEditableNode\<close>.
\<close>

record StatelessView =
  iface_getValue_sv :: "Key \<Rightarrow> int \<Rightarrow> error + bytes"
  iface_getEditableNode_sv :: "Key \<Rightarrow> int \<Rightarrow> error + Node"

text \<open>
  Modelled from the spec: the intercepter resolves a lookup from the temporary maps,
  then from the permanent maps (section 4.6); an entry that holds nothing is a key
  known to be absent. The spec calls a miss in all maps an error and does not name it;
  \<open>ErrNotFound\<close> stands for it here.
\<close>

record trieViewVerifierIntercepter =
  tempValues :: "(Key \<times> bytes option) list"
  tempNodes :: "(Key \<times> Node option) list"
  permValues :: "(Key \<times> bytes option) list"
  permNodes :: "(Key \<times> Node option) list"

definition intercepter_StatelessView :: "trieViewVerifierIntercepter \<Rightarrow> StatelessView" where
  "intercepter_StatelessView vi =
     \<lparr>iface_getValue_sv = (\<lambda>key maxLookback.
         case map_of (tempValues vi) key of
           Some (Some v) \<Rightarrow> Inr v
         | Some None \<Rightarrow> Inl ErrNotFound
         | None \<Rightarrow>
            (case map_of (permValues vi) key of
               Some (Some v) \<Rightarrow> Inr v
             | Some None \<Rightarrow> Inl ErrNotFound
             | None \<Rightarrow> Inl ErrNotFound)),
      iface_getEditableNode_sv = (\<lambda>key maxLookback.
         case map_of (tempNodes vi) key of
           Some (Some n) \<Rightarrow> Inr n
         | Some None \<Rightarrow> Inl ErrNotFound
         | None \<Rightarrow>
            (case map_of (permNodes vi) key of
               Some (Some n) \<Rightarrow> Inr n
             | Some None \<Rightarrow> Inl ErrNotFound
             | None \<Rightarrow> Inl ErrNotFound))\<rparr>"

text \<open>
  The view: as for \<open>trieView\<close>, a \<open>*Node\<close> is an address of a store of the view. The lock,
  the tracer and the metrics are left out.
\<close>

record statelessView =
  parentTrie_sv :: StatelessView
  changes_sv :: changeSummary
  unappliedValueChanges :: "(Key \<times> bytes option) list"
  root_sv :: addr
  heap_sv :: "addr \<Rightarrow> Node"
  allocated_sv :: nat
  needsRecalculation :: bool
  maxLookback :: int

definition alloc_sv :: "statelessView \<Rightarrow> Node \<Rightarrow> addr \<times> statelessView" where
  "alloc_sv s n =
     (allocated_sv s,
      s\<lparr>heap_sv := (heap_sv s)(allocated_sv s := n), allocated_sv := Suc (allocated_sv s)\<rparr>)"

definition modify_sv :: "statelessView \<Rightarrow> addr \<Rightarrow> (Node \<Rightarrow> Node) \<Rightarrow> statelessView" where
  "modify_sv s a f = s\<lparr>heap_sv := (heap_sv s)(a := f (heap_sv s a))\<rparr>"

definition set_nodes_sv :: "statelessView \<Rightarrow> (Key \<times> addr option change) list \<Rightarrow> statelessView" where
  "set_nodes_sv s ns = s\<lparr>changes_sv := (changes_sv s)\<lparr>nodes := ns\<rparr>\<rparr>"

definition getParentTrie_sv :: "statelessView \<Rightarrow> StatelessView" where
  "getParentTrie_sv s = parentTrie_sv s"

definition recordKeyChange_sv ::
    "statelessView \<Rightarrow> Key \<Rightarrow> addr option \<Rightarrow> error option \<times> statelessView" where
  "recordKeyChange_sv s0 key aft =
     (let s = s0\<lparr>needsRecalculation := True\<rparr> in
      case map_of (nodes (changes_sv s)) key of
        Some existing \<Rightarrow>
          (None, set_nodes_sv s (AList.update key (existing\<lparr>after := aft\<rparr>) (nodes (changes_sv s))))
      | None \<Rightarrow>
         if key = RootPath then
           (case alloc_sv s (heap_sv s (root_sv s)) of (b, s1) \<Rightarrow>
              (None, set_nodes_sv s1
                 (AList.update key \<lparr>before = Some b, after = aft\<rparr> (nodes (changes_sv s1)))))
         else
           (case iface_getEditableNode_sv (getParentTrie_sv s) key (maxLookback s) of
              Inl err \<Rightarrow>
                if err \<noteq> ErrNotFound then (Some err, s)
                else (None, set_nodes_sv s
                        (AList.update key \<lparr>before = None, after = aft\<rparr> (nodes (changes_sv s))))
            | Inr n \<Rightarrow>
                (case alloc_sv s n of (b, s1) \<Rightarrow>
                   (None, set_nodes_sv s1
                      (AList.update key \<lparr>before = Some b, after = aft\<rparr> (nodes (changes_sv s1)))))))"

definition recordNodeChange_sv :: "statelessView \<Rightarrow> addr \<Rightarrow> error option \<times> statelessView" where
  "recordNodeChange_sv s aft = recordKeyChange_sv s (N_key (heap_sv s aft)) (Some aft)"

definition recordNodeDeleted_sv :: "statelessView \<Rightarrow> addr \<Rightarrow> error option \<times> statelessView" where
  "recordNodeDeleted_sv s aft =
     (if length (N_key (heap_sv s aft)) = 0 then recordKeyChange_sv s (N_key (heap_sv s aft)) (Some aft)
      else recordKeyChange_sv s (N_key (heap_sv s aft)) None)"

definition getNodeWithID :: "statelessView \<Rightarrow> ident \<Rightarrow> Key \<Rightarrow> int \<Rightarrow> (error + addr) \<times> statelessView" where
  "getNodeWithID s i key lookback =
     (case map_of (nodes (changes_sv s)) key of
        Some nodeChange \<Rightarrow>
          (case after nodeChange of
             None \<Rightarrow> (Inl ErrNotFound, s)
           | Some a \<Rightarrow> (Inr a, s))
      | None \<Rightarrow>
         (case (if key = RootPath then Inr (heap_sv s (root_sv s))
                else iface_getEditableNode_sv (getParentTrie_sv s) key lookback) of
            Inl err \<Rightarrow> (Inl err, s)
          | Inr parentTrieNode \<Rightarrow>
             (case alloc_sv s (if i \<noteq> ids_Empty then parentTrieNode\<lparr>N_id := i\<rparr> else parentTrieNode) of
                (a, s1) \<Rightarrow> (Inr a, s1))))"

definition getNodeFromParent :: "statelessView \<Rightarrow> addr \<Rightarrow> Key \<Rightarrow> (error + addr) \<times> statelessView" where
  "getNodeFromParent s parent key =
     (case map_of (N_children (heap_sv s parent)) (key ! length (N_key (heap_sv s parent))) of
        Some c \<Rightarrow> getNodeWithID s (id_sv c) key (maxLookback s)
      | None \<Rightarrow> (Inl ErrNotFound, s))"

text \<open>
  The loop of \<open>compressNodePath\<close>: it deletes every node without a value and with a
  single child, from \<open>node\<close> downwards, and returns the first node that is not such. On a
  store whose nodes do not carry the keys they are stored under the loop need not end,
  so it is a partial function: \<open>None\<close> is the run that does not return.
\<close>

partial_function (option) compressLoop ::
    "statelessView \<Rightarrow> addr \<Rightarrow> ((error + addr) \<times> statelessView) option" where
  "compressLoop s n =
     (if length (N_children (heap_sv s n)) = 1 \<and> \<not> hasValue_sv (heap_sv s n) then
        (case recordNodeDeleted_sv s n of
           (Some err, s1) \<Rightarrow> Some (Inl err, s1)
         | (None, s1) \<Rightarrow>
            (case getNodeFromParent s1 n (getSingleChildPath (heap_sv s1 n)) of
               (Inl err, s2) \<Rightarrow> Some (Inl err, s2)
             | (Inr nextNode, s2) \<Rightarrow> compressLoop s2 nextNode))
      else Some (Inr n, s))"

declare compressLoop.simps [code]

definition compressNodePath_sv ::
    "statelessView \<Rightarrow> addr \<Rightarrow> addr \<Rightarrow> (error option \<times> statelessView) option" where
  "compressNodePath_sv s parent n =
     (if length (N_children (heap_sv s n)) \<noteq> 1 \<or> hasValue_sv (heap_sv s n) then Some (None, s)
      else
        (case compressLoop s n of
           None \<Rightarrow> None
         | Some (Inl err, s1) \<Rightarrow> Some (Some err, s1)
         | Some (Inr m, s1) \<Rightarrow>
             Some (recordNodeChange_sv (modify_sv s1 parent (\<lambda>p. addChild p (heap_sv s1 m))) parent)))"

text \<open>
  \<open>getPathTo\<close>: the walk of the stateless view; \<open>key[i:].HasPrefix(p)\<close> is written with
  \<open>take\<close> and \<open>drop\<close>.
\<close>

function getPathToLoop ::
    "statelessView \<Rightarrow> Key \<Rightarrow> addr \<Rightarrow> nat \<Rightarrow> addr list \<Rightarrow> (error + addr list) \<times> statelessView" where
  "getPathToLoop s key currentNode matchedKeyIndex ns =
     (if matchedKeyIndex < length key then
        (case map_of (N_children (heap_sv s currentNode)) (key ! matchedKeyIndex) of
           None \<Rightarrow> (Inr ns, s)
         | Some nextChildEntry \<Rightarrow>
            if take (length (compressedPath nextChildEntry)) (drop (matchedKeyIndex + 1) key)
               \<noteq> compressedPath nextChildEntry
            then (Inr ns, s)
            else
              (case getNodeWithID s (id_sv nextChildEntry)
                      (take (matchedKeyIndex + 1 + length (compressedPath nextChildEntry)) key)
                      (maxLookback s) of
                 (Inl err, s1) \<Rightarrow> (Inl err, s1)
               | (Inr n, s1) \<Rightarrow>
                   getPathToLoop s1 key n
                     (matchedKeyIndex + 1 + length (compressedPath nextChildEntry)) (ns @ [n])))
      else (Inr ns, s))"
  by pat_completeness auto
termination
  by (relation "measure (\<lambda>(s, key, currentNode, matchedKeyIndex, ns). length key - matchedKeyIndex)") auto

declare getPathToLoop.simps [simp del]

definition getPathTo :: "statelessView \<Rightarrow> Key \<Rightarrow> (error + addr list) \<times> statelessView" where
  "getPathTo s key = getPathToLoop s key (root_sv s) 0 [root_sv s]"

text \<open>
  \<open>deleteEmptyNodes\<close>: the loop runs from the last node of the path towards the root;
  the counter is \<open>nextParentIndex + 1\<close>, so that \<open>0\<close> is the source's \<open>nextParentIndex < 0\<close>.
\<close>

fun deleteEmptyLoop ::
    "statelessView \<Rightarrow> addr list \<Rightarrow> addr \<Rightarrow> nat \<Rightarrow> (error + addr \<times> nat) \<times> statelessView" where
  "deleteEmptyLoop s nodePath n 0 = (Inr (n, 0), s)"
| "deleteEmptyLoop s nodePath n (Suc nextParentIndex) =
     (if length (N_children (heap_sv s n)) = 0 \<and> \<not> hasValue_sv (heap_sv s n) then
        (case recordNodeDeleted_sv s n of
           (Some err, s1) \<Rightarrow> (Inl err, s1)
         | (None, s1) \<Rightarrow>
            (case recordNodeChange_sv
                    (modify_sv s1 (nodePath ! nextParentIndex) (\<lambda>p. removeChild p (heap_sv s1 n)))
                    (nodePath ! nextParentIndex) of
               (Some err, s2) \<Rightarrow> (Inl err, s2)
             | (None, s2) \<Rightarrow> deleteEmptyLoop s2 nodePath (nodePath ! nextParentIndex) nextParentIndex))
      else (Inr (n, Suc nextParentIndex), s))"

definition deleteEmptyNodes ::
    "statelessView \<Rightarrow> addr list \<Rightarrow> (error option \<times> statelessView) option" where
  "deleteEmptyNodes s nodePath =
     (case deleteEmptyLoop s nodePath (last nodePath) (length nodePath - 1) of
        (Inl err, s1) \<Rightarrow> Some (Some err, s1)
      | (Inr (n, 0), s1) \<Rightarrow> Some (None, s1)
      | (Inr (n, Suc nextParentIndex), s1) \<Rightarrow> compressNodePath_sv s1 (nodePath ! nextParentIndex) n)"

fun recordNodeChanges_sv :: "statelessView \<Rightarrow> addr list \<Rightarrow> error option \<times> statelessView" where
  "recordNodeChanges_sv s [] = (None, s)"
| "recordNodeChanges_sv s (n # ns) =
     (case recordNodeChange_sv s n of
        (Some err, s1) \<Rightarrow> (Some err, s1)
      | (None, s1) \<Rightarrow> recordNodeChanges_sv s1 ns)"

definition removeFromTrie :: "statelessView \<Rightarrow> Key \<Rightarrow> (error option \<times> statelessView) option" where
  "removeFromTrie s key =
     (case getPathTo s key of
        (Inl err, s1) \<Rightarrow> Some (Some err, s1)
      | (Inr nodePath, s1) \<Rightarrow>
         if N_key (heap_sv s1 (last nodePath)) \<noteq> key \<or> \<not> hasValue_sv (heap_sv s1 (last nodePath))
         then Some (None, s1)
         else
           (case recordNodeChanges_sv s1 nodePath of
              (Some err, s2) \<Rightarrow> Some (Some err, s2)
            | (None, s2) \<Rightarrow>
               (case recordNodeChange_sv
                       (modify_sv s2 (last nodePath) (\<lambda>n. n\<lparr>N_value := None\<rparr>)) (last nodePath) of
                  (Some err, s3) \<Rightarrow> Some (Some err, s3)
                | (None, s3) \<Rightarrow>
                   if length (N_children (heap_sv s3 (last nodePath))) = 0
                   then deleteEmptyNodes s3 nodePath
                   else if length nodePath = 1 then Some (None, s3)
                   else compressNodePath_sv s3 (nodePath ! (length nodePath - 2)) (last nodePath))))"

section \<open>Example inputs\<close>

text \<open>
  A stand-in for the hash in the examples: the digest of a value is its first 32 bytes
  (zero padded), and the ID of a node is the hashed content itself, written out: the
  key, every child entry and the value.
\<close>

definition plainHash :: externals where
  "plainHash =
     \<lparr>ComputeHash256 = (\<lambda>bs. take 32 (bs @ replicate 32 0)),
      hashValues = (\<lambda>key cs val.
         key @ concat (map (\<lambda>(index, c). index # compressedKey c @ id' c @ [if hasValue c then 1 else 0]) cs)
             @ (case val of None \<Rightarrow> [0] | Some v \<Rightarrow> 1 # v))\<rparr>"

text \<open>A parent whose database has been closed: every read fails.\<close>

definition closedParent :: TrieView where
  "closedParent =
     \<lparr>iface_getValue = (\<lambda>key. Inl ErrClosed), iface_getEditableNode = (\<lambda>key hv. Inl ErrClosed)\<rparr>"

text \<open>A view with no changes on the parent \<open>p\<close>, its root an empty node.\<close>

definition freshView :: "TrieView \<Rightarrow> trieView" where
  "freshView p =
     \<lparr>committed = False, nodesAlreadyCalculated = False, calculateNodesOnce = False,
      invalidated = False, parentTrie = p, changes = newChangeSummary,
      root = 0, heap = (\<lambda>a. newNode), allocated = 1, tokenSize = 8\<rparr>"

text \<open>An empty database: the root node alone.\<close>

definition emptyDB :: merkleDB where
  "emptyDB = \<lparr>db_nodes = [(emptyKey, newNode)], db_values = [], db_tokenSize = 8\<rparr>"

definition noIterator :: iterator where
  "noIterator = \<lparr>it_pairs = [], it_Error = None\<rparr>"

text \<open>
  A database with the keys "x", "xa", "xab" and "xac" (tokens of 8 bits): the root has
  the child "x", "x" has the only child "xa", and "xa" has the children "xab" and "xac".
\<close>

definition chainDB :: merkleDB where
  "chainDB =
     \<lparr>db_nodes =
        [([], \<lparr>nvalue = None,
               children = [(0x78, \<lparr>compressedKey = [], id' = ids_Empty, hasValue = True\<rparr>)]\<rparr>),
         ([0x78], \<lparr>nvalue = Some [0],
               children = [(0x61, \<lparr>compressedKey = [], id' = ids_Empty, hasValue = True\<rparr>)]\<rparr>),
         ([0x78, 0x61], \<lparr>nvalue = Some [1],
               children = [(0x62, \<lparr>compressedKey = [], id' = ids_Empty, hasValue = True\<rparr>),
                           (0x63, \<lparr>compressedKey = [], id' = ids_Empty, hasValue = True\<rparr>)]\<rparr>),
         ([0x78, 0x61, 0x62], \<lparr>nvalue = Some [2], children = []\<rparr>),
         ([0x78, 0x61, 0x63], \<lparr>nvalue = Some [3], children = []\<rparr>)],
      db_values =
        [([0x78], [0]), ([0x78, 0x61], [1]), ([0x78, 0x61, 0x62], [2]), ([0x78, 0x61, 0x63], [3])],
      db_tokenSize = 8\<rparr>"

text \<open>The view that \<open>NewView\<close> builds on it for the batch: delete "xab", delete "xa".\<close>

definition deleteTwo :: ViewChanges where
  "deleteTwo =
     \<lparr>BatchOps = [\<lparr>op_Key = [0x78, 0x61, 0x62], op_Value = [], op_Delete = True\<rparr>,
                  \<lparr>op_Key = [0x78, 0x61], op_Value = [], op_Delete = True\<rparr>],
      MapOps = [], ConsumeBytes = False\<rparr>"

definition chainView :: trieView where
  "chainView = projr (newTrieView chainDB (db_TrieView chainDB) deleteTwo)"

text \<open>
  A database whose root key has a value, with the one further key "x"; and the view
  that \<open>newTrieView\<close> builds on it for an empty batch.
\<close>

definition rootValueDB :: merkleDB where
  "rootValueDB =
     \<lparr>db_nodes =
        [([], \<lparr>nvalue = Some [9],
               children = [(0x78, \<lparr>compressedKey = [], id' = ids_Empty, hasValue = True\<rparr>)]\<rparr>),
         ([0x78], \<lparr>nvalue = Some [0], children = []\<rparr>)],
      db_values = [([], [9]), ([0x78], [0])],
      db_tokenSize = 8\<rparr>"

definition noChanges :: ViewChanges where
  "noChanges = \<lparr>BatchOps = [], MapOps = [], ConsumeBytes = False\<rparr>"

definition rootValueView :: trieView where
  "rootValueView = projr (newTrieView rootValueDB (db_TrieView rootValueDB) noChanges)"

text \<open>
  A database with the one key "xab": the root has the child "x" with the compressed key
  "ab"; and the view that \<open>newTrieView\<close> builds on it for an empty batch.
\<close>

definition compressedDB :: merkleDB where
  "compressedDB =
     \<lparr>db_nodes =
        [([], \<lparr>nvalue = None,
               children = [(0x78, \<lparr>compressedKey = [0x61, 0x62], id' = ids_Empty, hasValue = True\<rparr>)]\<rparr>),
         ([0x78, 0x61, 0x62], \<lparr>nvalue = Some [2], children = []\<rparr>)],
      db_values = [([0x78, 0x61, 0x62], [2])],
      db_tokenSize = 8\<rparr>"

definition compressedView :: trieView where
  "compressedView = projr (newTrieView compressedDB (db_TrieView compressedDB) noChanges)"

text \<open>
  The view on the database of "x", "xa", "xab" and "xac" for an empty batch, and the
  iterator over its four pairs from the key "x".
\<close>

definition plainChainView :: trieView where
  "plainChainView = projr (newTrieView chainDB (db_TrieView chainDB) noChanges)"

definition chainIterator :: iterator where
  "chainIterator =
     \<lparr>it_pairs = [([0x78], [0]), ([0x78, 0x61], [1]), ([0x78, 0x61, 0x62], [2]), ([0x78, 0x61, 0x63], [3])],
      it_Error = None\<rparr>"

text \<open>
  The stateless view on the trie of "x", "xa", "xab" and "xac": the root node in the
  store, the other nodes and the values in the permanent maps of the intercepter.
\<close>

definition chainIntercepter :: trieViewVerifierIntercepter where
  "chainIntercepter =
     \<lparr>tempValues = [], tempNodes = [],
      permValues =
        [([0x78], Some [0]), ([0x78, 0x61], Some [1]), ([0x78, 0x61, 0x62], Some [2]),
         ([0x78, 0x61, 0x63], Some [3])],
      permNodes =
        [([0x78], Some \<lparr>N_key = [0x78], N_id = ids_Empty, N_value = Some [0],
               N_children = [(0x61, \<lparr>compressedPath = [], id_sv = ids_Empty\<rparr>)]\<rparr>),
         ([0x78, 0x61], Some \<lparr>N_key = [0x78, 0x61], N_id = ids_Empty, N_value = Some [1],
               N_children = [(0x62, \<lparr>compressedPath = [], id_sv = ids_Empty\<rparr>),
                             (0x63, \<lparr>compressedPath = [], id_sv = ids_Empty\<rparr>)]\<rparr>),
         ([0x78, 0x61, 0x62], Some \<lparr>N_key = [0x78, 0x61, 0x62], N_id = ids_Empty, N_value = Some [2],
               N_children = []\<rparr>),
         ([0x78, 0x61, 0x63], Some \<lparr>N_key = [0x78, 0x61, 0x63], N_id = ids_Empty, N_value = Some [3],
               N_children = []\<rparr>)]\<rparr>"

definition chainStateless :: statelessView where
  "chainStateless =
     \<lparr>parentTrie_sv = intercepter_StatelessView chainIntercepter,
      changes_sv = newChangeSummary, unappliedValueChanges = [],
      root_sv = 0,
      heap_sv = (\<lambda>a. \<lparr>N_key = [], N_id = ids_Empty, N_value = None, N_children = []\<rparr>)
        (0 := \<lparr>N_key = [], N_id = ids_Empty, N_value = None,
                N_children = [(0x78, \<lparr>compressedPath = [], id_sv = ids_Empty\<rparr>)]\<rparr>),
      allocated_sv = 1, needsRecalculation = False, maxLookback = 0\<rparr>"

section \<open>Properties\<close>

subsection \<open>The value digest\<close>

text \<open>
  C5. The digest of an absent value is absent, the digest of a value shorter than 32
  bytes is the value itself, and the digest of a value of 32 bytes or more is its
  hash; a value of exactly 32 bytes is hashed. (The hash is a parameter: that it has
  32 bytes is a property of SHA-256, not of this code.)
\<close>

theorem getValueDigest_cases:
  "getValueDigest ext None = None
   \<and> (length v < 32 \<longrightarrow> getValueDigest ext (Some v) = Some v)
   \<and> (32 \<le> length v \<longrightarrow> getValueDigest ext (Some v) = Some (ComputeHash256 ext v))
   \<and> (length v = 32 \<longrightarrow> getValueDigest ext (Some v) = Some (ComputeHash256 ext v))"
  by (simp add: getValueDigest_def HashLength_def)

text \<open>C5 at a value of 32 bytes and at a value of 31 bytes.\<close>

theorem getValueDigest_cases_witness:
  "length (replicate 32 (1::byte)) = 32
   \<and> getValueDigest plainHash (Some (replicate 32 1)) = Some (ComputeHash256 plainHash (replicate 32 1))
   \<and> getValueDigest plainHash (Some (replicate 31 1)) = Some (replicate 31 1)"
  using getValueDigest_cases [of plainHash "replicate 32 1"]
        getValueDigest_cases [of plainHash "replicate 31 1"]
  by simp

subsection \<open>Reading a value\<close>

text \<open>
  C2, as the code has it. An invalidated view fails with \<open>ErrInvalid\<close>. Otherwise a key
  with a recorded value change gives the value after the change, whatever the parent
  is. Otherwise the parent is asked: its error is returned as it is, even when the view
  was invalidated meanwhile; its value is returned unless the view was invalidated
  during the call, which gives \<open>ErrInvalid\<close>.
\<close>

theorem getValue_read_path:
  "(invalidated t \<longrightarrow> getValue t invalidatedAfter key = Inl ErrInvalid)
   \<and> (\<not> invalidated t \<and> map_of (values' (changes t)) key = Some c
        \<longrightarrow> getValue (t\<lparr>parentTrie := p\<rparr>) invalidatedAfter key = Inr (after c))
   \<and> (\<not> invalidated t \<and> map_of (values' (changes t)) key = None
        \<and> iface_getValue (parentTrie t) key = Inl err
        \<longrightarrow> getValue t invalidatedAfter key = Inl err)
   \<and> (\<not> invalidated t \<and> map_of (values' (changes t)) key = None
        \<and> iface_getValue (parentTrie t) key = Inr val
        \<longrightarrow> getValue t invalidatedAfter key = (if invalidatedAfter then Inl ErrInvalid else Inr val))"
  by (simp add: getValue_def isInvalid_def getParentTrie_def)

text \<open>
  C2 on views over the empty database: an invalidated view; a view with a recorded
  change of the key (on a closed parent); a miss with a failing parent; a miss with the
  view invalidated during the call and not.
\<close>

theorem getValue_read_path_witness:
  "getValue ((freshView (db_TrieView emptyDB))\<lparr>invalidated := True\<rparr>) True [1] = Inl ErrInvalid
   \<and> getValue ((set_values (freshView (db_TrieView emptyDB))
                   [([1], \<lparr>before = None, after = Some [7]\<rparr>)])\<lparr>parentTrie := closedParent\<rparr>)
        False [1] = Inr (Some [7])
   \<and> getValue (freshView closedParent) False [1] = Inl ErrClosed
   \<and> getValue (freshView (db_TrieView emptyDB)) True [1] = Inl ErrInvalid
   \<and> getValue (freshView (db_TrieView emptyDB)) False [1] = Inr None"
  using getValue_read_path [of "(freshView (db_TrieView emptyDB))\<lparr>invalidated := True\<rparr>" True "[1]"]
        getValue_read_path [of "set_values (freshView (db_TrieView emptyDB))
                                  [([1], \<lparr>before = None, after = Some [7]\<rparr>)]"
                               False "[1]" "\<lparr>before = None, after = Some [7]\<rparr>" closedParent]
        getValue_read_path [of "freshView closedParent" False "[1]" _ _ ErrClosed]
        getValue_read_path [of "freshView (db_TrieView emptyDB)" True "[1]" _ _ _ None]
        getValue_read_path [of "freshView (db_TrieView emptyDB)" False "[1]" _ _ _ None]
  by (simp add: freshView_def set_values_def newChangeSummary_def closedParent_def
        db_TrieView_def emptyDB_def)

text \<open>
  C2 as the claim states it fails: the parent's call fails with the error of a closed
  database while the view is invalidated, and \<open>getValue\<close> returns the parent's error,
  not \<open>ErrInvalid\<close>.
\<close>

theorem getValue_parent_error_counterexample:
  "\<not> invalidated (freshView closedParent)
   \<and> map_of (values' (changes (freshView closedParent))) [1] = None
   \<and> getValue (freshView closedParent) True [1] = Inl ErrClosed
   \<and> getValue (freshView closedParent) True [1] \<noteq> Inl ErrInvalid"
  by (simp add: getValue_def isInvalid_def getParentTrie_def freshView_def closedParent_def
        newChangeSummary_def)

subsection \<open>The guard after the recomputation\<close>

text \<open>
  C6. On a view whose node IDs have been calculated, \<open>insert\<close>, \<open>remove\<close> and
  \<open>recordValueChange\<close> fail with \<open>ErrNodesAlreadyCalculated\<close> and return the view as it
  was; and the first run of \<open>calculateNodeIDs\<close> on a valid view leaves the view in that
  state, whatever it returns.
\<close>

theorem mutation_after_calculation:
  "(nodesAlreadyCalculated t \<longrightarrow>
      insert t key val = (Inl ErrNodesAlreadyCalculated, t)
      \<and> remove t key = (Some ErrNodesAlreadyCalculated, t)
      \<and> recordValueChange t key val' = (Some ErrNodesAlreadyCalculated, t))
   \<and> (\<not> calculateNodesOnce t \<and> \<not> isInvalid t \<and> calculateNodeIDs ext order t = (e, t')
        \<longrightarrow> nodesAlreadyCalculated t')"
  by (auto simp: insert_def remove_def recordValueChange_def calculateNodeIDs_def
           split: prod.splits option.splits sum.splits if_splits)

text \<open>C6 on a view over the empty database, after its node IDs were calculated.\<close>

theorem mutation_after_calculation_witness:
  "nodesAlreadyCalculated (snd (calculateNodeIDs plainHash [] (freshView (db_TrieView emptyDB))))
   \<and> insert (snd (calculateNodeIDs plainHash [] (freshView (db_TrieView emptyDB)))) [1] (Some [7])
       = (Inl ErrNodesAlreadyCalculated, snd (calculateNodeIDs plainHash [] (freshView (db_TrieView emptyDB))))
   \<and> remove (snd (calculateNodeIDs plainHash [] (freshView (db_TrieView emptyDB)))) [1]
       = (Some ErrNodesAlreadyCalculated, snd (calculateNodeIDs plainHash [] (freshView (db_TrieView emptyDB))))
   \<and> recordValueChange (snd (calculateNodeIDs plainHash [] (freshView (db_TrieView emptyDB)))) [1] None
       = (Some ErrNodesAlreadyCalculated, snd (calculateNodeIDs plainHash [] (freshView (db_TrieView emptyDB))))"
proof -
  let ?t = "freshView (db_TrieView emptyDB)"
  let ?r = "calculateNodeIDs plainHash [] ?t"
  have pre: "\<not> calculateNodesOnce ?t \<and> \<not> isInvalid ?t \<and> ?r = (fst ?r, snd ?r)"
    by (simp add: freshView_def isInvalid_def)
  have flag: "nodesAlreadyCalculated (snd ?r)"
    using mutation_after_calculation [of ?t "[1]" "Some [7]" None plainHash "[]" "fst ?r" "snd ?r"] pre
    by blast
  show ?thesis
    using mutation_after_calculation [of "snd ?r" "[1]" "Some [7]" None plainHash "[]" "fst ?r" "snd ?r"] flag
    by blast
qed

subsection \<open>Range proofs: the checks at entry\<close>

text \<open>
  C3, as the code has it. \<open>GetRangeProof\<close> fails with \<open>ErrStartAfterEnd\<close> when both bounds
  are present and \<open>start > end\<close>; it fails with \<open>ErrInvalidMaxLength\<close> when
  \<open>maxLength \<le> 0\<close> and the bounds pass that first check. Either way the view is returned
  as it was: nothing has been calculated or built.
\<close>

theorem GetRangeProof_validation:
  "(start = Some s \<and> end' = Some e \<and> e < s
      \<longrightarrow> GetRangeProof ext order it t start end' maxLength = (Inl ErrStartAfterEnd, t))
   \<and> (\<not> (\<exists>s e. start = Some s \<and> end' = Some e \<and> e < s) \<and> maxLength \<le> 0
      \<longrightarrow> GetRangeProof ext order it t start end' maxLength = (Inl (ErrInvalidMaxLength maxLength), t))"
  by (auto simp: GetRangeProof_def bytes_Compare_def)

text \<open>C3 at the bounds "b" > "a", and at \<open>maxLength = 0\<close> with the bounds "a" \<open>\<le>\<close> "b".\<close>

theorem GetRangeProof_validation_witness:
  "[0x61] < [0x62 :: byte]
   \<and> GetRangeProof plainHash [] noIterator (freshView (db_TrieView emptyDB)) (Some [0x62]) (Some [0x61]) 5
       = (Inl ErrStartAfterEnd, freshView (db_TrieView emptyDB))
   \<and> GetRangeProof plainHash [] noIterator (freshView (db_TrieView emptyDB)) (Some [0x61]) (Some [0x62]) 0
       = (Inl (ErrInvalidMaxLength 0), freshView (db_TrieView emptyDB))"
  using GetRangeProof_validation [of "Some [0x62]" "[0x62]" "Some [0x61]" "[0x61]" plainHash "[]" noIterator
          "freshView (db_TrieView emptyDB)" 5]
        GetRangeProof_validation [of "Some [0x61]" _ "Some [0x62]" _ plainHash "[]" noIterator
          "freshView (db_TrieView emptyDB)" 0]
  by simp

text \<open>
  C3 as the claim states it fails: with \<open>start\<close> = "b", \<open>end\<close> = "a" and \<open>maxLength = 0\<close> the
  call fails with \<open>ErrStartAfterEnd\<close>, not with \<open>ErrInvalidMaxLength\<close>.
\<close>

theorem GetRangeProof_maxLength_counterexample:
  "(0::int) \<le> 0
   \<and> GetRangeProof plainHash [] noIterator (freshView (db_TrieView emptyDB)) (Some [0x62]) (Some [0x61]) 0
       = (Inl ErrStartAfterEnd, freshView (db_TrieView emptyDB))
   \<and> ErrStartAfterEnd \<noteq> ErrInvalidMaxLength 0"
  by (simp add: GetRangeProof_def bytes_Compare_def)

subsection \<open>The compression invariant and the defect of \<open>remove\<close>\<close>

text \<open>
  C1 fails on the code. The view \<open>chainView\<close> deletes "xab" and "xa"; the
  materialisation applies \<open>remove\<close> to "xab" first and to "xa" after it. The first call
  compresses the node "xa" away (the view already records no value for "xa"); the walk
  of the second call ends at the node "x", which \<open>remove\<close> takes for the node to delete:
  it clears the value of "x". No error is returned. The node "x" is a child of the root,
  not the root, and it is left with no value and exactly one child, while the view
  still reads the value of the key "x".
\<close>

theorem remove_leaves_uncompressed_node:
  "\<not> isl (newTrieView chainDB (db_TrieView chainDB) deleteTwo)
   \<and> fst (applyValueChanges chainView [[0x78, 0x61, 0x62], [0x78, 0x61]]) = None
   \<and> map_of (children (heap (snd (applyValueChanges chainView [[0x78, 0x61, 0x62], [0x78, 0x61]]))
                 (root (snd (applyValueChanges chainView [[0x78, 0x61, 0x62], [0x78, 0x61]]))))) 0x78
       = Some \<lparr>compressedKey = [], id' = ids_Empty, hasValue = True\<rparr>
   \<and> fst (getNode (snd (applyValueChanges chainView [[0x78, 0x61, 0x62], [0x78, 0x61]])) [0x78] True)
       = Inr 2
   \<and> heap (snd (applyValueChanges chainView [[0x78, 0x61, 0x62], [0x78, 0x61]])) 2
       = \<lparr>nvalue = None,
          children = [(0x61, \<lparr>compressedKey = [0x63], id' = ids_Empty, hasValue = True\<rparr>)]\<rparr>
   \<and> length (children (heap (snd (applyValueChanges chainView [[0x78, 0x61, 0x62], [0x78, 0x61]])) 2)) = 1
   \<and> getValue (snd (applyValueChanges chainView [[0x78, 0x61, 0x62], [0x78, 0x61]])) False [0x78]
       = Inr (Some [0])"
  by code_simp

text \<open>
  C8 fails on the code, by the same defect. After \<open>remove\<close> of "xab" the view has no value
  and no node for "xa"; \<open>remove\<close> of "xa" then clears the value of the node "x", and the
  ID of the root, recomputed before and after that call, changes. The Merkle root of
  the view so depends on the order in which the two deletions are applied: deleting
  "xa" first gives another root than deleting "xab" first.
\<close>

theorem remove_absent_changes_root:
  "fst (remove chainView [0x78, 0x61, 0x62]) = None
   \<and> getValue (snd (remove chainView [0x78, 0x61, 0x62])) False [0x78, 0x61] = Inr None
   \<and> fst (getNode (snd (remove chainView [0x78, 0x61, 0x62])) [0x78, 0x61] True) = Inl ErrNotFound
   \<and> fst (remove (snd (remove chainView [0x78, 0x61, 0x62])) [0x78, 0x61]) = None
   \<and> nvalue (heap (snd (remove chainView [0x78, 0x61, 0x62])) 2) = Some [0]
   \<and> nvalue (heap (snd (remove (snd (remove chainView [0x78, 0x61, 0x62])) [0x78, 0x61])) 2) = None
   \<and> fst (calculateNodeIDsHelper plainHash
             (nodes (changes (snd (remove chainView [0x78, 0x61, 0x62]))))
             (snd (remove chainView [0x78, 0x61, 0x62])) emptyKey
             (root (snd (remove chainView [0x78, 0x61, 0x62]))))
       \<noteq> fst (calculateNodeIDsHelper plainHash
             (nodes (changes (snd (remove (snd (remove chainView [0x78, 0x61, 0x62])) [0x78, 0x61]))))
             (snd (remove (snd (remove chainView [0x78, 0x61, 0x62])) [0x78, 0x61])) emptyKey
             (root (snd (remove (snd (remove chainView [0x78, 0x61, 0x62])) [0x78, 0x61]))))
   \<and> fst (GetMerkleRoot plainHash [[0x78, 0x61, 0x62], [0x78, 0x61]] chainView)
       \<noteq> fst (GetMerkleRoot plainHash [[0x78, 0x61], [0x78, 0x61, 0x62]] chainView)"
  by code_simp

subsection \<open>What a mutation leaves unchanged\<close>

lemma frame_refl [simp]: "frame t t"
  by (simp add: frame_def)

lemma frame_trans: "frame t t1 \<Longrightarrow> frame t1 t2 \<Longrightarrow> frame t t2"
  by (simp add: frame_def)

lemma frame_modify [simp]: "frame t (modify t a f)"
  by (simp add: frame_def modify_def rootNotDeleted_def)

lemma frame_alloc [simp]: "frame t (snd (alloc t n))"
  by (simp add: frame_def alloc_def rootNotDeleted_def)

lemma frame_set_values [simp]: "frame t (set_values t vs)"
  by (simp add: frame_def set_values_def rootNotDeleted_def)

lemma frame_modify_trans [simp]: "frame t (modify t1 a f) = frame t t1"
  by (simp add: frame_def modify_def rootNotDeleted_def)

lemma frame_alloc_trans [simp]: "frame t (snd (alloc t1 n)) = frame t t1"
  by (simp add: frame_def alloc_def rootNotDeleted_def)

lemma recordKeyChange_frame:
  assumes "recordKeyChange t key aft isNew = (e, t')" and "key = emptyKey \<longrightarrow> aft \<noteq> None"
  shows "frame t t'"
  using assms
  by (auto simp: recordKeyChange_def frame_def rootNotDeleted_def update_conv' alloc_def set_nodes_def
           split: if_splits option.splits sum.splits)

lemma recordNewNode_frame: "recordNewNode t key a = (e, t') \<Longrightarrow> frame t t'"
  unfolding recordNewNode_def by (erule recordKeyChange_frame) simp

lemma recordNodeChange_frame: "recordNodeChange t key a = (e, t') \<Longrightarrow> frame t t'"
  unfolding recordNodeChange_def by (erule recordKeyChange_frame) simp

lemma recordNodeDeleted_frame: "recordNodeDeleted t key a = (e, t') \<Longrightarrow> frame t t'"
  unfolding recordNodeDeleted_def
  by (auto split: if_splits elim!: recordKeyChange_frame simp: emptyKey_def)

lemma recordValueChange_frame: "recordValueChange t key val = (e, t') \<Longrightarrow> frame t t'"
  by (auto simp: recordValueChange_def split: if_splits option.splits sum.splits)

lemma getNode_frame: "getNode t key hv = (r, t') \<Longrightarrow> frame t t'"
  by (auto simp: getNode_def split: option.splits sum.splits prod.splits)
     (metis frame_alloc snd_conv)


lemma visitLoop_frame:
  "\<forall>k n acc s e acc' s'. visitNode k n acc s = (e, acc', s') \<longrightarrow> frame s s'
   \<Longrightarrow> visitLoop key visitNode currentKey currentNode acc t = (e, acc', t') \<Longrightarrow> frame t t'"
proof (induction key visitNode currentKey currentNode acc t rule: visitLoop.induct)
  case (1 key visitNode currentKey currentNode acc t)
  note IH = "1.IH" and vis = "1.prems"(1) and run = "1.prems"(2)
  show ?case
  proof (cases "length currentKey < length key")
    case False
    with run show ?thesis by (simp add: visitLoop.simps)
  next
    case long: True
    show ?thesis
    proof (cases "map_of (children (heap t currentNode)) (Token key (length currentKey))")
      case None
      with run long show ?thesis by (simp add: visitLoop.simps)
    next
      case (Some nextChildEntry)
      show ?thesis
      proof (cases "iteratedHasPrefix key (compressedKey nextChildEntry) (length currentKey + 1)")
        case False
        with run long Some show ?thesis by (simp add: visitLoop.simps)
      next
        case pre: True
        let ?k = "Take key (length currentKey + 1 + length (compressedKey nextChildEntry))"
        obtain r t1 where g: "getNode t ?k (hasValue nextChildEntry) = (r, t1)"
          by (cases "getNode t ?k (hasValue nextChildEntry)")
        have f1: "frame t t1" using g by (rule getNode_frame)
        show ?thesis
        proof (cases r)
          case (Inl err)
          with run long Some pre g f1 show ?thesis by (simp add: visitLoop.simps)
        next
          case (Inr n)
          obtain e2 acc2 t2 where v: "visitNode ?k n acc t1 = (e2, acc2, t2)"
            by (cases "visitNode ?k n acc t1")
          have f2: "frame t1 t2" using v vis by blast
          show ?thesis
          proof (cases e2)
            case (Some err)
            with run long \<open>map_of _ _ = Some nextChildEntry\<close> pre g Inr v frame_trans [OF f1 f2]
            show ?thesis by (simp add: visitLoop.simps)
          next
            case None
            have rec: "visitLoop key visitNode ?k n acc2 t2 = (e, acc', t')"
              using run long \<open>map_of _ _ = Some nextChildEntry\<close> pre g Inr v None
              by (simp add: visitLoop.simps [of key visitNode currentKey])
            have "frame t2 t'"
              using IH [of nextChildEntry r t1 n e2 "(acc2, t2)" acc2 t2]
                    long \<open>map_of _ _ = Some nextChildEntry\<close> pre g Inr v None rec vis
              by simp
            with f1 f2 show ?thesis by (blast intro: frame_trans)
          qed
        qed
      qed
    qed
  qed
qed


lemma visitPathToKey_frame:
  assumes vis: "\<forall>k n acc s e acc' s'. visitNode k n acc s = (e, acc', s') \<longrightarrow> frame s s'"
    and run: "visitPathToKey t key visitNode acc = (e, acc', t')"
  shows "frame t t'"
proof -
  obtain e1 acc1 t1 where v: "visitNode emptyKey (root t) acc t = (e1, acc1, t1)"
    by (cases "visitNode emptyKey (root t) acc t")
  have f1: "frame t t1" using v vis by blast
  show ?thesis
  proof (cases e1)
    case (Some err)
    with run v f1 show ?thesis by (simp add: visitPathToKey_def)
  next
    case None
    with run v have "visitLoop key visitNode emptyKey (root t) acc1 t1 = (e, acc', t')"
      by (simp add: visitPathToKey_def)
    from visitLoop_frame [OF vis this] f1 show ?thesis by (blast intro: frame_trans)
  qed
qed

lemma insertVisit_frame:
  "\<forall>k n acc s e acc' s'. insertVisit k n acc s = (e, acc', s') \<longrightarrow> frame s s'"
  by (auto simp: insertVisit_def split: prod.splits dest: recordNodeChange_frame)

lemma removeVisit_frame:
  "\<forall>k n acc s e acc' s'. removeVisit k n acc s = (e, acc', s') \<longrightarrow> frame s s'"
  by (auto simp: removeVisit_def split: prod.splits dest: recordNodeChange_frame)

lemma compressNodePath_frame:
  assumes "compressNodePath t parent parentKey n nodeKey = (e, t')"
  shows "frame t t'"
proof (cases "nodesAlreadyCalculated t \<or> parent = None \<or> isl (getValue t (isInvalid t) nodeKey)
              \<or> length (children (heap t n)) \<noteq> 1 \<or> projr (getValue t (isInvalid t) nodeKey) \<noteq> None")
  case True
  with assms show ?thesis
    by (auto simp: compressNodePath_def split: if_splits sum.splits option.splits)
next
  case False
  then obtain p where p: "parent = Some p" by auto
  obtain e1 t1 where d: "recordNodeDeleted t nodeKey n = (e1, t1)"
    by (cases "recordNodeDeleted t nodeKey n")
  have f1: "frame t t1" using d by (rule recordNodeDeleted_frame)
  show ?thesis
  proof (cases e1)
    case (Some err)
    with assms False p d f1 show ?thesis
      by (auto simp: compressNodePath_def split: if_splits sum.splits option.splits)
  next
    case None
    obtain childKey childEntry where oc: "onlyChild nodeKey (children (heap t1 n)) = (childKey, childEntry)"
      by (cases "onlyChild nodeKey (children (heap t1 n))")
    let ?t2 = "modify t1 p
                 (\<lambda>m. setChildEntry m (Token childKey (length parentKey))
                    \<lparr>compressedKey = Skip childKey (length parentKey + 1),
                     id' = id' childEntry, hasValue = hasValue childEntry\<rparr>)"
    have "recordNodeChange ?t2 parentKey p = (e, t')"
      using assms False p d None oc
      by (auto simp: compressNodePath_def split: if_splits sum.splits option.splits)
    then have "frame ?t2 t'" by (rule recordNodeChange_frame)
    moreover have "frame t ?t2" using f1 by simp
    ultimately show ?thesis by (blast intro: frame_trans)
  qed
qed


lemma parentTrie_modify [simp]: "parentTrie (modify t a f) = parentTrie t"
  by (simp add: modify_def)
lemma root_modify [simp]: "root (modify t a f) = root t"
  by (simp add: modify_def)
lemma nodesAlreadyCalculated_modify [simp]: "nodesAlreadyCalculated (modify t a f) = nodesAlreadyCalculated t"
  by (simp add: modify_def)
lemma rootNotDeleted_modify [simp]: "rootNotDeleted (modify t a f) = rootNotDeleted t"
  by (simp add: modify_def rootNotDeleted_def)

lemma remove_frame:
  assumes "remove t key = (e, t')"
  shows "frame t t'"
  using assms
  apply (simp add: remove_def Let_def split: if_splits prod.splits option.splits)
  apply (auto dest!: recordValueChange_frame visitPathToKey_frame [OF removeVisit_frame]
               compressNodePath_frame recordNodeDeleted_frame)
  apply (auto simp: frame_def)
  done

lemma insert_frame:
  assumes "insert t key val = (r, t')"
  shows "frame t t'"
  using assms
  apply (simp add: insert_def Let_def alloc_def split: if_splits prod.splits option.splits)
  apply (auto dest!: recordValueChange_frame visitPathToKey_frame [OF insertVisit_frame]
               recordNewNode_frame)
  apply (auto simp: frame_def modify_def rootNotDeleted_def)
  done

lemma recordValueChanges_frame: "recordValueChanges t ops = (e, t') \<Longrightarrow> frame t t'"
proof (induction ops arbitrary: t)
  case Nil
  then show ?case by simp
next
  case (Cons op ops)
  obtain key val where op: "op = (key, val)" by (cases op)
  obtain e1 t1 where r: "recordValueChange t key val = (e1, t1)"
    by (cases "recordValueChange t key val")
  have f1: "frame t t1" using r by (rule recordValueChange_frame)
  show ?case
  proof (cases e1)
    case (Some err)
    with Cons.prems op r f1 show ?thesis by simp
  next
    case None
    with Cons.prems op r have "recordValueChanges t1 ops = (e, t')" by simp
    from Cons.IH [OF this] f1 show ?thesis by (blast intro: frame_trans)
  qed
qed

lemma applyMutation_frame: "frame t (applyMutation t m)"
proof (cases m)
  case (Insert key val)
  then show ?thesis using insert_frame [of t key val] by (cases "insert t key val") simp
next
  case (Remove key)
  then show ?thesis using remove_frame [of t key] by (cases "remove t key") simp
qed

lemma applyMutations_frame: "frame t (applyMutations t ms)"
  unfolding applyMutations_def
proof (induction ms arbitrary: t)
  case Nil
  show ?case by simp
next
  case (Cons m ms)
  have "frame t (applyMutation t m)" by (rule applyMutation_frame)
  moreover have "frame (applyMutation t m) (foldl applyMutation (applyMutation t m) ms)"
    by (rule Cons.IH)
  ultimately show ?case by (simp add: frame_trans)
qed

lemma newTrieView_rootNotDeleted:
  assumes "newTrieView db p chs = Inr t"
  shows "rootNotDeleted t"
proof -
  let ?t0 = "\<lparr>committed = False, nodesAlreadyCalculated = False, calculateNodesOnce = False,
                  invalidated = False, parentTrie = p, changes = newChangeSummary,
                  root = 0, heap = (\<lambda>a. newNode)(0 := projr (iface_getEditableNode p emptyKey False)),
                  allocated = 1, tokenSize = db_tokenSize db\<rparr>"
  have start: "rootNotDeleted ?t0" by (simp add: rootNotDeleted_def newChangeSummary_def)
  from assms obtain ops e where "recordValueChanges ?t0 ops = (e, t)"
    by (auto simp: newTrieView_def split: sum.splits if_splits prod.splits option.splits)
  then have "frame ?t0 t" by (rule recordValueChanges_frame)
  with start show ?thesis unfolding frame_def by blast
qed

text \<open>
  C10. Recording the deletion of the root key records a change of the root node, not a
  deletion. A view that \<open>newTrieView\<close> has built has no deletion of the root key in its
  change set, and no sequence of inserts and removes (failed ones included) brings one in
  or moves the root pointer; \<open>getNode\<close> of the root key then still finds a node in the
  change set.
\<close>

theorem root_never_deleted:
  "recordNodeDeleted t emptyKey n = recordKeyChange t emptyKey (Some n) False
   \<and> (rootNotDeleted t \<longrightarrow> rootNotDeleted (applyMutations t ms))
   \<and> root (applyMutations t ms) = root t
   \<and> (newTrieView db p chs = Inr t \<longrightarrow> rootNotDeleted (applyMutations t ms))
   \<and> (rootNotDeleted t \<and> map_of (nodes (changes t)) emptyKey = Some c
        \<longrightarrow> (\<exists>a. getNode t emptyKey hv = (Inr a, t)))"
proof -
  have f: "frame t (applyMutations t ms)" by (rule applyMutations_frame)
  have "recordNodeDeleted t emptyKey n = recordKeyChange t emptyKey (Some n) False"
    by (simp add: recordNodeDeleted_def emptyKey_def)
  moreover have "rootNotDeleted t \<longrightarrow> rootNotDeleted (applyMutations t ms)"
    using f by (simp add: frame_def)
  moreover have "root (applyMutations t ms) = root t"
    using f by (simp add: frame_def)
  moreover have "newTrieView db p chs = Inr t \<longrightarrow> rootNotDeleted (applyMutations t ms)"
    using f newTrieView_rootNotDeleted [of db p chs t] by (auto simp: frame_def)
  moreover have "rootNotDeleted t \<and> map_of (nodes (changes t)) emptyKey = Some c
        \<longrightarrow> (\<exists>a. getNode t emptyKey hv = (Inr a, t))"
    by (auto simp: rootNotDeleted_def getNode_def)
  ultimately show ?thesis by blast
qed

text \<open>
  C10 on the view over the database with a value at the root key: after "x" and the
  root key have been removed, the change set holds the root node, without children and
  without a value, under the root key.
\<close>

theorem root_never_deleted_witness:
  "rootNotDeleted rootValueView
   \<and> rootNotDeleted (applyMutations rootValueView [Remove [0x78], Remove []])
   \<and> root (applyMutations rootValueView [Remove [0x78], Remove []]) = 0
   \<and> map_of (nodes (changes (applyMutations rootValueView [Remove [0x78], Remove []]))) emptyKey
       = Some \<lparr>before = Some 1, after = Some 0\<rparr>
   \<and> heap (applyMutations rootValueView [Remove [0x78], Remove []]) 0 = \<lparr>nvalue = None, children = []\<rparr>
   \<and> fst (getNode (applyMutations rootValueView [Remove [0x78], Remove []]) emptyKey False) = Inr 0"
proof -
  let ?ms = "[Remove [0x78], Remove []]"
  have built: "newTrieView rootValueDB (db_TrieView rootValueDB) noChanges = Inr rootValueView"
    by (simp add: rootValueView_def newTrieView_def rootValueDB_def db_TrieView_def noChanges_def
          emptyKey_def)
  have start: "rootNotDeleted rootValueView" by code_simp
  have fin: "rootNotDeleted (applyMutations rootValueView ?ms)"
    using root_never_deleted [of rootValueView 0 ?ms rootValueDB "db_TrieView rootValueDB" noChanges] built
    by blast
  have rest: "root (applyMutations rootValueView ?ms) = 0
    \<and> map_of (nodes (changes (applyMutations rootValueView ?ms))) emptyKey
       = Some \<lparr>before = Some 1, after = Some 0\<rparr>
    \<and> heap (applyMutations rootValueView ?ms) 0 = \<lparr>nvalue = None, children = []\<rparr>
    \<and> fst (getNode (applyMutations rootValueView ?ms) emptyKey False) = Inr 0"
    by code_simp
  from start fin rest show ?thesis by blast
qed

subsection \<open>The walk of \<open>insert\<close> and \<open>ErrGetPathToFailure\<close>\<close>

lemma commonPrefixFrom_matches:
  "commonIndex \<le> length first
   \<Longrightarrow> \<forall>i<commonIndex. i + off < length second \<and> first ! i = second ! (i + off)
   \<Longrightarrow> getLengthOfCommonPrefixFrom first second off commonIndex \<le> length first
       \<and> (\<forall>i<getLengthOfCommonPrefixFrom first second off commonIndex.
              i + off < length second \<and> first ! i = second ! (i + off))"
proof (induction first second off commonIndex rule: getLengthOfCommonPrefixFrom.induct)
  case (1 first second secondOffset commonIndex)
  show ?case
  proof (cases "length first > commonIndex \<and> length second > commonIndex + secondOffset
         \<and> Token first commonIndex = Token second (commonIndex + secondOffset)")
    case True
    have step: "\<forall>i<commonIndex + 1. i + secondOffset < length second \<and> first ! i = second ! (i + secondOffset)"
      using "1.prems"(2) True by (auto simp: Token_def less_Suc_eq)
    have "commonIndex + 1 \<le> length first" using True by simp
    have "getLengthOfCommonPrefixFrom first second secondOffset commonIndex
            = getLengthOfCommonPrefixFrom first second secondOffset (commonIndex + 1)"
      using True by (subst getLengthOfCommonPrefixFrom.simps) simp
    with "1.IH" [OF True \<open>commonIndex + 1 \<le> length first\<close> step] show ?thesis by simp
  next
    case False
    then have "getLengthOfCommonPrefixFrom first second secondOffset commonIndex = commonIndex"
      by (subst getLengthOfCommonPrefixFrom.simps) auto
    with "1.prems" show ?thesis by simp
  qed
qed

lemma commonPrefix_whole_is_prefix:
  assumes whole: "length C \<le> getLengthOfCommonPrefix C key off" and off: "off \<le> length key"
  shows "iteratedHasPrefix key C off"
proof -
  let ?r = "getLengthOfCommonPrefix C key off"
  have m: "?r \<le> length C \<and> (\<forall>i<?r. i + off < length key \<and> C ! i = key ! (i + off))"
    unfolding getLengthOfCommonPrefix_def by (rule commonPrefixFrom_matches) simp_all
  with whole have r: "?r = length C" by simp
  have fits: "length C + off \<le> length key"
  proof (cases "C = []")
    case True
    with off show ?thesis by simp
  next
    case False
    then have "length C - 1 < ?r" using r by simp
    with m have "length C - 1 + off < length key" by blast
    with False show ?thesis by (cases C) simp_all
  qed
  have "take (length C) (drop off key) = C"
  proof (rule nth_equalityI)
    show "length (take (length C) (drop off key)) = length C" using fits by simp
  next
    fix i assume "i < length (take (length C) (drop off key))"
    then have i: "i < length C" by simp
    with m r have "C ! i = key ! (i + off)" by simp
    with i fits show "take (length C) (drop off key) ! i = C ! i" by (simp add: add.commute)
  qed
  with fits show ?thesis by (simp add: iteratedHasPrefix_def)
qed


lemma visitLoop_insert_stop:
  "visitNode = insertVisit \<Longrightarrow> acc = (currentKey, Some currentNode)
   \<Longrightarrow> currentKey = take (length currentKey) key
   \<Longrightarrow> visitLoop key visitNode currentKey currentNode acc t = (None, (ck, Some cn), t')
   \<Longrightarrow> stopsAt key ck cn t'"
proof (induction key visitNode currentKey currentNode acc t rule: visitLoop.induct)
  case (1 key visitNode currentKey currentNode acc t)
  note IH = "1.IH" and vis = "1.prems"(1) and acc = "1.prems"(2) and pre = "1.prems"(3)
    and run = "1.prems"(4)
  show ?case
  proof (cases "length currentKey < length key")
    case False
    with run acc pre show ?thesis by (simp add: visitLoop.simps stopsAt_def)
  next
    case long: True
    show ?thesis
    proof (cases "map_of (children (heap t currentNode)) (Token key (length currentKey))")
      case None
      with run long acc pre show ?thesis by (simp add: visitLoop.simps stopsAt_def)
    next
      case (Some nextChildEntry)
      show ?thesis
      proof (cases "iteratedHasPrefix key (compressedKey nextChildEntry) (length currentKey + 1)")
        case False
        with run long Some acc pre show ?thesis by (simp add: visitLoop.simps stopsAt_def)
      next
        case hp: True
        let ?k = "Take key (length currentKey + 1 + length (compressedKey nextChildEntry))"
        obtain r t1 where g: "getNode t ?k (hasValue nextChildEntry) = (r, t1)"
          by (cases "getNode t ?k (hasValue nextChildEntry)")
        show ?thesis
        proof (cases r)
          case (Inl err)
          with run long Some hp g show ?thesis by (simp add: visitLoop.simps)
        next
          case (Inr n)
          obtain e2 t2 where v: "visitNode ?k n acc t1 = (e2, (?k, Some n), t2)"
            using vis by (cases "recordNodeChange t1 ?k n") (simp add: insertVisit_def)
          show ?thesis
          proof (cases e2)
            case (Some err)
            with run long \<open>map_of _ _ = Some nextChildEntry\<close> hp g Inr v
            show ?thesis by (simp add: visitLoop.simps)
          next
            case None
            have rec: "visitLoop key visitNode ?k n (?k, Some n) t2 = (None, (ck, Some cn), t')"
              using run long \<open>map_of _ _ = Some nextChildEntry\<close> hp g Inr v None
              by (simp add: visitLoop.simps [of key visitNode currentKey])
            have k: "?k = take (length ?k) key" by (auto simp: Take_def min_def)
            show ?thesis
              using IH [of nextChildEntry r t1 n e2 "((?k, Some n), t2)" "(?k, Some n)" t2]
                    long \<open>map_of _ _ = Some nextChildEntry\<close> hp g Inr v None rec vis k
              by simp
          qed
        qed
      qed
    qed
  qed
qed

lemma visitPathToKey_insert_stop:
  assumes "visitPathToKey t key insertVisit acc = (None, (ck, Some cn), t')"
  shows "stopsAt key ck cn t'"
proof -
  obtain e1 t1 where v: "insertVisit emptyKey (root t) acc t = (e1, (emptyKey, Some (root t)), t1)"
    by (cases "recordNodeChange t emptyKey (root t)") (simp add: insertVisit_def)
  show ?thesis
  proof (cases e1)
    case (Some err)
    with assms v show ?thesis by (simp add: visitPathToKey_def)
  next
    case None
    with assms v have "visitLoop key insertVisit emptyKey (root t) (emptyKey, Some (root t)) t1
        = (None, (ck, Some cn), t')"
      by (simp add: visitPathToKey_def)
    from visitLoop_insert_stop [OF refl refl _ this] show ?thesis
      by (simp add: emptyKey_def)
  qed
qed

lemma stopsAt_short_prefix:
  assumes stop: "stopsAt key ck cn t" and neq: "ck \<noteq> key"
    and c: "map_of (children (heap t cn)) (Token key (length ck)) = Some c"
  shows "getLengthOfCommonPrefix (compressedKey c) key (length ck + 1) < length (compressedKey c)"
proof (rule ccontr)
  assume "\<not> ?thesis"
  then have whole: "length (compressedKey c) \<le> getLengthOfCommonPrefix (compressedKey c) key (length ck + 1)"
    by simp
  from stop have pre: "ck = take (length ck) key" by (simp add: stopsAt_def)
  have "length ck \<le> length key" by (subst pre) simp
  moreover have "length ck \<noteq> length key" using pre neq by auto
  ultimately have short: "length ck < length key" by simp
  then have "length ck + 1 \<le> length key" by simp
  from commonPrefix_whole_is_prefix [OF whole this] stop short c show False
    by (simp add: stopsAt_def)
qed


lemma recordKeyChange_err:
  "recordKeyChange t key aft isNew = (Some err, t') \<Longrightarrow> noPathFailure (parentTrie t)
   \<Longrightarrow> err \<noteq> ErrGetPathToFailure"
  by (auto simp: recordKeyChange_def noPathFailure_def getParentTrie_def alloc_def
           split: if_splits option.splits sum.splits)

lemma recordValueChange_err:
  "recordValueChange t key val = (Some err, t') \<Longrightarrow> noPathFailure (parentTrie t)
   \<Longrightarrow> err \<noteq> ErrGetPathToFailure"
  by (auto simp: recordValueChange_def noPathFailure_def getParentTrie_def
           split: if_splits option.splits sum.splits)

lemma getNode_err:
  "getNode t key hv = (Inl err, t') \<Longrightarrow> noPathFailure (parentTrie t)
   \<Longrightarrow> err \<noteq> ErrGetPathToFailure"
  by (auto simp: getNode_def noPathFailure_def getParentTrie_def alloc_def
           split: if_splits option.splits sum.splits)

lemma insertVisit_err:
  "insertVisit k n acc s = (Some err, acc', s') \<Longrightarrow> noPathFailure (parentTrie s)
   \<Longrightarrow> err \<noteq> ErrGetPathToFailure"
  by (auto simp: insertVisit_def recordNodeChange_def split: prod.splits dest: recordKeyChange_err)

lemma insertVisit_frame1: "insertVisit k n acc s = (e, acc', s') \<Longrightarrow> frame s s'"
  using insertVisit_frame by blast

lemma visitLoop_insert_err:
  "visitNode = insertVisit \<Longrightarrow> noPathFailure (parentTrie t)
   \<Longrightarrow> visitLoop key visitNode currentKey currentNode acc t = (Some err, acc', t')
   \<Longrightarrow> err \<noteq> ErrGetPathToFailure"
proof (induction key visitNode currentKey currentNode acc t rule: visitLoop.induct)
  case (1 key visitNode currentKey currentNode acc t)
  note IH = "1.IH" and vis = "1.prems"(1) and np = "1.prems"(2) and run = "1.prems"(3)
  show ?case
  proof (cases "length currentKey < length key")
    case False
    with run show ?thesis by (simp add: visitLoop.simps)
  next
    case long: True
    show ?thesis
    proof (cases "map_of (children (heap t currentNode)) (Token key (length currentKey))")
      case None
      with run long show ?thesis by (simp add: visitLoop.simps)
    next
      case (Some nextChildEntry)
      show ?thesis
      proof (cases "iteratedHasPrefix key (compressedKey nextChildEntry) (length currentKey + 1)")
        case False
        with run long Some show ?thesis by (simp add: visitLoop.simps)
      next
        case hp: True
        let ?k = "Take key (length currentKey + 1 + length (compressedKey nextChildEntry))"
        obtain r t1 where g: "getNode t ?k (hasValue nextChildEntry) = (r, t1)"
          by (cases "getNode t ?k (hasValue nextChildEntry)")
        have np1: "noPathFailure (parentTrie t1)"
          using getNode_frame [OF g] np by (simp add: frame_def)
        show ?thesis
        proof (cases r)
          case (Inl e)
          with run long Some hp g getNode_err [of t ?k "hasValue nextChildEntry" e t1] np
          show ?thesis by (simp add: visitLoop.simps)
        next
          case (Inr n)
          obtain e2 acc2 t2 where v: "visitNode ?k n acc t1 = (e2, acc2, t2)"
            by (cases "visitNode ?k n acc t1")
          have np2: "noPathFailure (parentTrie t2)"
            using insertVisit_frame1 [of ?k n acc t1 e2 acc2 t2] v vis np1 by (simp add: frame_def)
          show ?thesis
          proof (cases e2)
            case (Some e)
            with run long \<open>map_of _ _ = Some nextChildEntry\<close> hp g Inr v vis np1
              insertVisit_err [of ?k n acc t1 e acc2 t2]
            show ?thesis by (simp add: visitLoop.simps)
          next
            case None
            have rec: "visitLoop key visitNode ?k n acc2 t2 = (Some err, acc', t')"
              using run long \<open>map_of _ _ = Some nextChildEntry\<close> hp g Inr v None
              by (simp add: visitLoop.simps [of key visitNode currentKey])
            show ?thesis
              using IH [of nextChildEntry r t1 n e2 "(acc2, t2)" acc2 t2]
                    long \<open>map_of _ _ = Some nextChildEntry\<close> hp g Inr v None rec vis np2
              by simp
          qed
        qed
      qed
    qed
  qed
qed

lemma visitPathToKey_insert_err:
  assumes "visitPathToKey t key insertVisit acc = (Some err, acc', t')"
    and np: "noPathFailure (parentTrie t)"
  shows "err \<noteq> ErrGetPathToFailure"
proof -
  obtain e1 acc1 t1 where v: "insertVisit emptyKey (root t) acc t = (e1, acc1, t1)"
    by (cases "insertVisit emptyKey (root t) acc t")
  have np1: "noPathFailure (parentTrie t1)"
    using insertVisit_frame1 [OF v] np by (simp add: frame_def)
  show ?thesis
  proof (cases e1)
    case (Some e)
    with assms v insertVisit_err [of emptyKey "root t" acc t e acc1 t1] show ?thesis
      by (simp add: visitPathToKey_def)
  next
    case None
    with assms v have "visitLoop key insertVisit emptyKey (root t) acc1 t1 = (Some err, acc', t')"
      by (simp add: visitPathToKey_def)
    from visitLoop_insert_err [OF refl np1 this] show ?thesis .
  qed
qed


lemma recordNewNode_err:
  "recordNewNode s key a = (Some err, s') \<Longrightarrow> noPathFailure (parentTrie s)
   \<Longrightarrow> err \<noteq> ErrGetPathToFailure"
  unfolding recordNewNode_def by (rule recordKeyChange_err)

lemma recordNewNode_outcome:
  assumes "noPathFailure (parentTrie s)"
  shows "fst (case recordNewNode s key a of
                (Some err, s') \<Rightarrow> (Inl err, s')
              | (None, s') \<Rightarrow> (Inr b, s')) \<noteq> Inl ErrGetPathToFailure"
  using assms recordNewNode_err [of s key a]
  by (cases "recordNewNode s key a") (auto split: option.splits)

lemma recordNewNode_twice_outcome:
  assumes np: "noPathFailure (parentTrie s)" and par: "\<And>x. parentTrie (g x) = parentTrie x"
  shows "fst (case recordNewNode s key a of
                (Some err, s') \<Rightarrow> (Inl err, s')
              | (None, s') \<Rightarrow>
                  (case recordNewNode (g s') key2 a2 of
                     (Some err, s'') \<Rightarrow> (Inl err, s'')
                   | (None, s'') \<Rightarrow> (Inr b, s''))) \<noteq> Inl ErrGetPathToFailure"
proof (cases "recordNewNode s key a")
  case (Pair e s')
  show ?thesis
  proof (cases e)
    case (Some err)
    with Pair recordNewNode_err [of s key a err s'] np show ?thesis by simp
  next
    case None
    have "noPathFailure (parentTrie (g s'))"
      using recordNewNode_frame [of s key a e s'] Pair np par by (simp add: frame_def)
    from recordNewNode_outcome [OF this] Pair None show ?thesis by simp
  qed
qed

text \<open>
  C9. When the walk of \<open>insert\<close> has stopped at the closest node, short of the key, and
  that node has a child at the next token, the common prefix of the child's compressed
  key and the rest of the key is shorter than the compressed key: the test that raises
  \<open>ErrGetPathToFailure\<close> is never true after the walk. Hence \<open>insert\<close> never returns
  \<open>ErrGetPathToFailure\<close>, on any view whose parent does not return it.
\<close>

theorem insert_never_path_failure:
  "(visitPathToKey t1 key insertVisit acc = (None, (closestKey, Some closestNode), t2)
      \<and> closestKey \<noteq> key
      \<and> map_of (children (heap t2 closestNode)) (Token key (length closestKey)) = Some c
      \<longrightarrow> getLengthOfCommonPrefix (compressedKey c) key (length closestKey + 1) < length (compressedKey c))
   \<and> (noPathFailure (parentTrie t) \<longrightarrow> fst (insert t key val) \<noteq> Inl ErrGetPathToFailure)"
proof (intro conjI impI)
  assume "visitPathToKey t1 key insertVisit acc = (None, (closestKey, Some closestNode), t2)
      \<and> closestKey \<noteq> key
      \<and> map_of (children (heap t2 closestNode)) (Token key (length closestKey)) = Some c"
  then show "getLengthOfCommonPrefix (compressedKey c) key (length closestKey + 1) < length (compressedKey c)"
    by (blast dest: visitPathToKey_insert_stop stopsAt_short_prefix)
next
  assume np: "noPathFailure (parentTrie t)"
  show "fst (insert t key val) \<noteq> Inl ErrGetPathToFailure"
  proof (cases "nodesAlreadyCalculated t")
    case True
    then show ?thesis by (simp add: insert_def)
  next
    case False
    obtain e1 s1 where rv: "recordValueChange t key val = (e1, s1)"
      by (cases "recordValueChange t key val")
    have np1: "noPathFailure (parentTrie s1)"
      using recordValueChange_frame [OF rv] np by (simp add: frame_def)
    show ?thesis
    proof (cases e1)
      case (Some e)
      with False rv recordValueChange_err [of t key val e s1] np show ?thesis
        by (simp add: insert_def)
    next
      case None
      obtain e2 ck cn s2 where w: "visitPathToKey s1 key insertVisit (emptyKey, None) = (e2, (ck, cn), s2)"
        by (cases "visitPathToKey s1 key insertVisit (emptyKey, None)") auto
      have np2: "noPathFailure (parentTrie s2)"
        using visitPathToKey_frame [OF insertVisit_frame w] np1 by (simp add: frame_def)
      show ?thesis
      proof (cases e2)
        case (Some e)
        with False rv None w visitPathToKey_insert_err [of s1 key "(emptyKey, None)" e "(ck, cn)" s2] np1
        show ?thesis by (simp add: insert_def)
      next
        case walked: None
        show ?thesis
        proof (cases cn)
          case None
          with False rv \<open>e1 = None\<close> w walked show ?thesis by (simp add: insert_def)
        next
          case (Some closest)
          have stop: "stopsAt key ck closest s2"
            using w walked Some by (auto dest: visitPathToKey_insert_stop)
          show ?thesis
          proof (cases "ck = key")
            case True
            with False rv \<open>e1 = None\<close> w walked Some show ?thesis by (simp add: insert_def)
          next
            case neq: False
            show ?thesis
            proof (cases "map_of (children (heap s2 closest)) (Token key (length ck))")
              case None
              show ?thesis
                using False rv \<open>e1 = None\<close> w walked Some neq None
                by (simp add: insert_def alloc_def recordNewNode_outcome np2)
            next
              case (Some c)
              have short: "\<not> length (compressedKey c)
                             \<le> getLengthOfCommonPrefix (compressedKey c) key (length ck + 1)"
                using stopsAt_short_prefix [OF stop neq Some] by simp
              show ?thesis
                using False rv \<open>e1 = None\<close> w walked \<open>cn = Some closest\<close> neq Some short
                by (simp add: insert_def alloc_def Let_def recordNewNode_outcome
                      recordNewNode_twice_outcome np2)
            qed
          qed
        qed
      qed
    qed
  qed
qed

lemma noPathFailure_db: "noPathFailure (db_TrieView db)"
  by (simp add: noPathFailure_def db_TrieView_def split: option.splits)

text \<open>
  C9 on a view over a database with the one key "xab", held by a child of the root with
  the compressed key "ab": \<open>insert\<close> of "xac" stops its walk at the root, the common
  prefix has one token of the two, and a branch node is made.
\<close>

theorem insert_never_path_failure_witness:
  "noPathFailure (parentTrie compressedView)
   \<and> fst (visitPathToKey (snd (recordValueChange compressedView [0x78, 0x61, 0x63] (Some [3])))
            [0x78, 0x61, 0x63] insertVisit (emptyKey, None)) = None
   \<and> fst (snd (visitPathToKey (snd (recordValueChange compressedView [0x78, 0x61, 0x63] (Some [3])))
            [0x78, 0x61, 0x63] insertVisit (emptyKey, None))) = ([], Some 0)
   \<and> getLengthOfCommonPrefix [0x61, 0x62] [0x78, 0x61, 0x63] (length ([]::Key) + 1) < length [0x61, 0x62 :: byte]
   \<and> fst (insert compressedView [0x78, 0x61, 0x63] (Some [3])) \<noteq> Inl ErrGetPathToFailure"
proof -
  let ?key = "[0x78, 0x61, 0x63] :: Key"
  let ?t1 = "snd (recordValueChange compressedView ?key (Some [3]))"
  let ?w = "visitPathToKey ?t1 ?key insertVisit (emptyKey, None)"
  let ?c = "\<lparr>compressedKey = [0x61, 0x62], id' = ids_Empty, hasValue = True\<rparr>"
  have a: "fst ?w = None \<and> fst (snd ?w) = ([], Some 0)" by code_simp
  then have w: "?w = (None, ([], Some 0), snd (snd ?w))" by (metis prod.collapse)
  have c: "map_of (children (heap (snd (snd ?w)) 0)) (Token ?key (length ([]::Key))) = Some ?c"
    by code_simp
  have "parentTrie compressedView = db_TrieView compressedDB"
    by (simp add: compressedView_def newTrieView_def compressedDB_def db_TrieView_def noChanges_def
          emptyKey_def)
  then have np: "noPathFailure (parentTrie compressedView)" by (simp add: noPathFailure_db)
  have neq: "([]::Key) \<noteq> ?key" by simp
  from insert_never_path_failure [of ?t1 ?key "(emptyKey, None)" "[]" 0 "snd (snd ?w)" ?c
         compressedView "Some [3]"] w c np neq a
  show ?thesis by simp
qed


subsection \<open>Range proofs: the contents\<close>

lemma collectKeyValues_prefix:
  "collectKeyValues items end' maxLength acc = (kvs, exhausted)
   \<Longrightarrow> \<exists>n. kvs = acc @ map (\<lambda>(k, v). \<lparr>kv_Key = k, kv_Value = v\<rparr>) (take n items)
          \<and> (\<forall>kv \<in> set (take n items). case end' of None \<Rightarrow> True | Some e \<Rightarrow> fst kv \<le> e)
          \<and> int (length kvs) \<le> max maxLength (int (length acc))"
proof (induction items arbitrary: acc)
  case Nil
  then show ?case by auto
next
  case (Cons a items)
  obtain k v where a: "a = (k, v)" by (cases a)
  show ?case
  proof (cases "int (length acc) < maxLength
         \<and> (case end' of None \<Rightarrow> True | Some e \<Rightarrow> bytes_Compare k e \<le> 0)")
    case True
    with Cons.prems a
    have "collectKeyValues items end' maxLength (acc @ [\<lparr>kv_Key = k, kv_Value = v\<rparr>]) = (kvs, exhausted)"
      by simp
    from Cons.IH [OF this] obtain n where
      n: "kvs = (acc @ [\<lparr>kv_Key = k, kv_Value = v\<rparr>]) @ map (\<lambda>(k, v). \<lparr>kv_Key = k, kv_Value = v\<rparr>) (take n items)"
        "\<forall>kv \<in> set (take n items). case end' of None \<Rightarrow> True | Some e \<Rightarrow> fst kv \<le> e"
        "int (length kvs) \<le> max maxLength (int (length (acc @ [\<lparr>kv_Key = k, kv_Value = v\<rparr>])))"
      by blast
    have kle: "case end' of None \<Rightarrow> True | Some e \<Rightarrow> k \<le> e"
      using True by (auto simp: bytes_Compare_def split: option.splits if_splits)
    have "kvs = acc @ map (\<lambda>(k, v). \<lparr>kv_Key = k, kv_Value = v\<rparr>) (take (Suc n) (a # items))"
      using n(1) a by simp
    moreover have "\<forall>kv \<in> set (take (Suc n) (a # items)). case end' of None \<Rightarrow> True | Some e \<Rightarrow> fst kv \<le> e"
      using n(2) kle a by (auto split: option.splits)
    moreover have "int (length kvs) \<le> max maxLength (int (length acc))"
      using n(3) True by simp
    ultimately show ?thesis by blast
  next
    case False
    with Cons.prems a have "kvs = acc" by (auto split: if_splits)
    then have "kvs = acc @ map (\<lambda>(k, v). \<lparr>kv_Key = k, kv_Value = v\<rparr>) (take 0 (a # items))" by simp
    moreover have "\<forall>kv \<in> set (take 0 (a # items)). case end' of None \<Rightarrow> True | Some e \<Rightarrow> fst kv \<le> e"
      by simp
    moreover have "int (length kvs) \<le> max maxLength (int (length acc))" using \<open>kvs = acc\<close> by simp
    ultimately show ?thesis by blast
  qed
qed

lemma proofVisit_path:
  "proofVisit ext k n acc s = (None, acc', s') \<Longrightarrow> snd (snd acc') \<noteq> []"
  by (auto simp: proofVisit_def split: prod.splits sum.splits)

lemma visitLoop_proof_path:
  "visitNode = proofVisit ext \<Longrightarrow> snd (snd acc) \<noteq> []
   \<Longrightarrow> visitLoop key visitNode currentKey currentNode acc t = (None, acc', t')
   \<Longrightarrow> snd (snd acc') \<noteq> []"
proof (induction key visitNode currentKey currentNode acc t rule: visitLoop.induct)
  case (1 key visitNode currentKey currentNode acc t)
  note IH = "1.IH" and vis = "1.prems"(1) and ne = "1.prems"(2) and run = "1.prems"(3)
  show ?case
  proof (cases "length currentKey < length key")
    case False
    with run ne show ?thesis by (simp add: visitLoop.simps)
  next
    case long: True
    show ?thesis
    proof (cases "map_of (children (heap t currentNode)) (Token key (length currentKey))")
      case None
      with run long ne show ?thesis by (simp add: visitLoop.simps)
    next
      case (Some nextChildEntry)
      show ?thesis
      proof (cases "iteratedHasPrefix key (compressedKey nextChildEntry) (length currentKey + 1)")
        case False
        with run long Some ne show ?thesis by (simp add: visitLoop.simps)
      next
        case hp: True
        let ?k = "Take key (length currentKey + 1 + length (compressedKey nextChildEntry))"
        obtain r t1 where g: "getNode t ?k (hasValue nextChildEntry) = (r, t1)"
          by (cases "getNode t ?k (hasValue nextChildEntry)")
        show ?thesis
        proof (cases r)
          case (Inl err)
          with run long Some hp g show ?thesis by (simp add: visitLoop.simps)
        next
          case (Inr n)
          obtain e2 acc2 t2 where v: "visitNode ?k n acc t1 = (e2, acc2, t2)"
            by (cases "visitNode ?k n acc t1")
          show ?thesis
          proof (cases e2)
            case (Some err)
            with run long \<open>map_of _ _ = Some nextChildEntry\<close> hp g Inr v
            show ?thesis by (simp add: visitLoop.simps)
          next
            case None
            have rec: "visitLoop key visitNode ?k n acc2 t2 = (None, acc', t')"
              using run long \<open>map_of _ _ = Some nextChildEntry\<close> hp g Inr v None
              by (simp add: visitLoop.simps [of key visitNode currentKey])
            have ne2: "snd (snd acc2) \<noteq> []"
              using v vis None proofVisit_path [of ext ?k n acc t1 acc2 t2] by simp
            show ?thesis
              using IH [of nextChildEntry r t1 n e2 "(acc2, t2)" acc2 t2]
                    long \<open>map_of _ _ = Some nextChildEntry\<close> hp g Inr v None rec vis ne2
              by simp
          qed
        qed
      qed
    qed
  qed
qed

lemma visitPathToKey_proof_path:
  assumes "visitPathToKey t key (proofVisit ext) acc = (None, (ck, cn, path), t')"
  shows "path \<noteq> []"
proof -
  obtain e1 acc1 t1 where v: "proofVisit ext emptyKey (root t) acc t = (e1, acc1, t1)"
    by (cases "proofVisit ext emptyKey (root t) acc t")
  show ?thesis
  proof (cases e1)
    case (Some err)
    with assms v show ?thesis by (simp add: visitPathToKey_def)
  next
    case None
    with assms v have run: "visitLoop key (proofVisit ext) emptyKey (root t) acc1 t1 = (None, (ck, cn, path), t')"
      by (simp add: visitPathToKey_def)
    have "snd (snd acc1) \<noteq> []" using v None proofVisit_path by blast
    from visitLoop_proof_path [OF refl this run] show ?thesis by simp
  qed
qed

lemma getProof_path_nonempty:
  assumes "getProof ext t key = (Inr p, t')"
  shows "proof_Path p \<noteq> []"
proof -
  obtain e ck cn path t1 where
    w: "visitPathToKey t (ToKey (tokenSize t) key) (proofVisit ext) (emptyKey, None, []) = (e, (ck, cn, path), t1)"
    by (cases "visitPathToKey t (ToKey (tokenSize t) key) (proofVisit ext) (emptyKey, None, [])") auto
  show ?thesis
  proof (cases e)
    case (Some err)
    with assms w show ?thesis by (auto simp: getProof_def split: sum.splits)
  next
    case None
    with w have "path \<noteq> []" by (auto dest: visitPathToKey_proof_path)
    with assms w None show ?thesis
      by (auto simp: getProof_def Let_def split: sum.splits option.splits if_splits prod.splits)
  qed
qed

lemma rangeEndProof_Inr:
  assumes "rangeEndProof ext t kvs end' = (Inr ep, t')"
  shows "(kvs \<noteq> [] \<longrightarrow> (\<exists>p. fst (getProof ext t (kv_Key (last kvs))) = Inr p \<and> ep = proof_Path p))
       \<and> (kvs = [] \<longrightarrow> (\<forall>e. end' = Some e \<longrightarrow>
              (\<exists>p. fst (getProof ext t e) = Inr p \<and> ep = proof_Path p \<and> ep \<noteq> [])))
       \<and> (kvs = [] \<and> end' = None \<longrightarrow> ep = [] \<and> t' = t)"
  using assms
  by (auto simp: rangeEndProof_def split: if_splits prod.splits sum.splits
           dest: getProof_path_nonempty)

lemma stripCommon_Nil [simp]: "stripCommon sp [] = sp"
  by (simp add: stripCommon_def)

lemma rangeStartProof_Inr:
  assumes "rangeStartProof ext t start ep = (Inr sp, t')"
  shows "(start = None \<longrightarrow> sp = [] \<and> t' = t) \<and> (start \<noteq> None \<and> ep = [] \<longrightarrow> sp \<noteq> [])"
  using assms
  by (auto simp: rangeStartProof_def split: if_splits prod.splits sum.splits
           dest: getProof_path_nonempty)

text \<open>
  C4. When \<open>GetRangeProof\<close> returns a proof, on an iterator that runs in order from
  \<open>start\<close>: \<open>KeyValues\<close> has at most \<open>maxLength\<close> pairs; their keys are not below \<open>start\<close>
  and not above \<open>end\<close>, where these are present; they ascend, and the pairs are the first
  pairs the iterator yields. \<open>EndProof\<close> is the path of \<open>getProof\<close> (on the view after
  \<open>calculateNodeIDs\<close>) for the key of the last pair, or for \<open>end\<close> when there is no pair and
  \<open>end\<close> is present. When there is no pair, no \<open>end\<close> and no start proof, \<open>start\<close> is
  absent too and \<open>EndProof\<close> is the path of \<open>getProof\<close> for the root key.
\<close>

theorem GetRangeProof_contents:
  assumes run: "GetRangeProof ext order it t start end' maxLength = (Inr rp, t')"
    and ord: "inOrderFrom start it"
  shows "int (length (KeyValues rp)) \<le> maxLength
    \<and> (\<forall>kv \<in> set (KeyValues rp).
          (case start of None \<Rightarrow> True | Some s \<Rightarrow> s \<le> kv_Key kv)
          \<and> (case end' of None \<Rightarrow> True | Some e \<Rightarrow> kv_Key kv \<le> e))
    \<and> sorted_wrt (\<lambda>a b. a < b) (map kv_Key (KeyValues rp))
    \<and> map (\<lambda>kv. (kv_Key kv, kv_Value kv)) (KeyValues rp) = take (length (KeyValues rp)) (it_pairs it)
    \<and> (KeyValues rp \<noteq> [] \<longrightarrow>
          (\<exists>p. fst (getProof ext (snd (calculateNodeIDs ext order t)) (kv_Key (last (KeyValues rp)))) = Inr p
               \<and> EndProof rp = proof_Path p))
    \<and> (KeyValues rp = [] \<longrightarrow> (\<forall>e. end' = Some e \<longrightarrow>
          (\<exists>p. fst (getProof ext (snd (calculateNodeIDs ext order t)) e) = Inr p
               \<and> EndProof rp = proof_Path p)))
    \<and> (KeyValues rp = [] \<and> end' = None \<and> StartProof rp = [] \<longrightarrow>
          start = None
          \<and> (\<exists>p. fst (getProof ext (snd (calculateNodeIDs ext order t)) rootKey) = Inr p
                 \<and> EndProof rp = proof_Path p))"
proof -
  let ?mk = "\<lambda>(k, v). \<lparr>kv_Key = k, kv_Value = v\<rparr>"
  from run have pos: "0 < maxLength"
    by (auto simp: GetRangeProof_def split: if_splits)
  from run obtain t1 where c: "calculateNodeIDs ext order t = (None, t1)"
    by (auto simp: GetRangeProof_def split: if_splits prod.splits option.splits)
  obtain kvs ex where col: "collectKeyValues (it_pairs it) end' maxLength [] = (kvs, ex)"
    by (cases "collectKeyValues (it_pairs it) end' maxLength []")
  from run c col pos obtain ep t2 where e: "rangeEndProof ext t1 kvs end' = (Inr ep, t2)"
    by (auto simp: GetRangeProof_def split: if_splits prod.splits sum.splits)
  from run c col pos e obtain sp t3 where s: "rangeStartProof ext t2 start ep = (Inr sp, t3)"
    by (auto simp: GetRangeProof_def split: if_splits prod.splits sum.splits)
  from run c col pos e s have kv: "KeyValues rp = kvs" and spe: "StartProof rp = sp"
    by (auto simp: GetRangeProof_def split: if_splits prod.splits sum.splits)
  from run c col pos e s have fin:
    "(sp = [] \<and> ep = [] \<and> kvs = [] \<longrightarrow> (\<exists>p. fst (getProof ext t3 rootKey) = Inr p \<and> EndProof rp = proof_Path p))
     \<and> (\<not> (sp = [] \<and> ep = [] \<and> kvs = []) \<longrightarrow> EndProof rp = ep)"
    by (auto simp: GetRangeProof_def split: if_splits prod.splits sum.splits)
  from collectKeyValues_prefix [OF col] obtain n where
    n: "kvs = map ?mk (take n (it_pairs it))"
       "\<forall>kv \<in> set (take n (it_pairs it)). case end' of None \<Rightarrow> True | Some e \<Rightarrow> fst kv \<le> e"
       "int (length kvs) \<le> max maxLength 0"
    by auto
  have keys: "map kv_Key kvs = take n (map fst (it_pairs it))"
    using n(1) by (simp add: take_map case_prod_unfold comp_def)
  have len: "int (length (KeyValues rp)) \<le> maxLength" using n(3) pos kv by simp
  have srt: "sorted_wrt (\<lambda>a b. a < b) (map kv_Key (KeyValues rp))"
    using ord keys kv by (simp add: inOrderFrom_def sorted_wrt_take)
  have pre: "map (\<lambda>kv. (kv_Key kv, kv_Value kv)) (KeyValues rp) = take (length (KeyValues rp)) (it_pairs it)"
    using n(1) kv by (simp add: comp_def case_prod_unfold min_def)
  have lo: "\<forall>k \<in> set (map kv_Key kvs). (case start of None \<Rightarrow> [] | Some s \<Rightarrow> s) \<le> k"
    using ord keys by (auto simp: inOrderFrom_def list_all_iff dest!: in_set_takeD)
  have hi: "\<forall>kv \<in> set kvs. case end' of None \<Rightarrow> True | Some e \<Rightarrow> kv_Key kv \<le> e"
    using n(1) n(2) by (auto split: option.splits)
  have bounds: "\<forall>kv \<in> set (KeyValues rp).
          (case start of None \<Rightarrow> True | Some s \<Rightarrow> s \<le> kv_Key kv)
          \<and> (case end' of None \<Rightarrow> True | Some e \<Rightarrow> kv_Key kv \<le> e)"
    using lo hi kv by (auto split: option.splits)
  note E = rangeEndProof_Inr [OF e] and S = rangeStartProof_Inr [OF s]
  have t1: "snd (calculateNodeIDs ext order t) = t1" using c by simp
  have last: "KeyValues rp \<noteq> [] \<longrightarrow>
          (\<exists>p. fst (getProof ext t1 (kv_Key (last (KeyValues rp)))) = Inr p \<and> EndProof rp = proof_Path p)"
    using E fin kv by auto
  have endp: "KeyValues rp = [] \<longrightarrow> (\<forall>e. end' = Some e \<longrightarrow>
          (\<exists>p. fst (getProof ext t1 e) = Inr p \<and> EndProof rp = proof_Path p))"
    using E fin kv by auto
  have rootp: "KeyValues rp = [] \<and> end' = None \<and> StartProof rp = [] \<longrightarrow>
          start = None \<and> (\<exists>p. fst (getProof ext t1 rootKey) = Inr p \<and> EndProof rp = proof_Path p)"
    using E S fin kv spe by auto
  from len bounds srt pre last endp rootp show ?thesis unfolding t1 by blast
qed

text \<open>
  C4 on the view of "x", "xa", "xab", "xac": the range from "x" to "xab" with at most two
  pairs gives "x" and "xa" and the path to "xa"; the range from "y" to "z" gives no pair
  and the path for "z"; the unbounded range over an empty iterator gives the root proof.
\<close>

theorem GetRangeProof_contents_witness:
  "inOrderFrom (Some [0x78]) chainIterator
   \<and> map kv_Key (KeyValues (projr (fst (GetRangeProof plainHash [] chainIterator plainChainView
          (Some [0x78]) (Some [0x78, 0x61, 0x62]) 2)))) = [[0x78], [0x78, 0x61]]
   \<and> int (length (KeyValues (projr (fst (GetRangeProof plainHash [] chainIterator plainChainView
          (Some [0x78]) (Some [0x78, 0x61, 0x62]) 2))))) \<le> 2
   \<and> map pn_Key (EndProof (projr (fst (GetRangeProof plainHash [] chainIterator plainChainView
          (Some [0x78]) (Some [0x78, 0x61, 0x62]) 2)))) = [[], [0x78], [0x78, 0x61]]
   \<and> (\<exists>p. fst (getProof plainHash (snd (calculateNodeIDs plainHash [] plainChainView)) [0x78, 0x61]) = Inr p
          \<and> EndProof (projr (fst (GetRangeProof plainHash [] chainIterator plainChainView
               (Some [0x78]) (Some [0x78, 0x61, 0x62]) 2))) = proof_Path p)
   \<and> inOrderFrom (Some [0x79]) noIterator
   \<and> KeyValues (projr (fst (GetRangeProof plainHash [] noIterator plainChainView
          (Some [0x79]) (Some [0x7a]) 2))) = []
   \<and> (\<exists>p. fst (getProof plainHash (snd (calculateNodeIDs plainHash [] plainChainView)) [0x7a]) = Inr p
          \<and> EndProof (projr (fst (GetRangeProof plainHash [] noIterator plainChainView
               (Some [0x79]) (Some [0x7a]) 2))) = proof_Path p)
   \<and> inOrderFrom None noIterator
   \<and> StartProof (projr (fst (GetRangeProof plainHash [] noIterator plainChainView None None 2))) = []
   \<and> (\<exists>p. fst (getProof plainHash (snd (calculateNodeIDs plainHash [] plainChainView)) rootKey) = Inr p
          \<and> EndProof (projr (fst (GetRangeProof plainHash [] noIterator plainChainView None None 2)))
              = proof_Path p)"
proof -
  let ?a = "GetRangeProof plainHash [] chainIterator plainChainView (Some [0x78]) (Some [0x78, 0x61, 0x62]) 2"
  let ?b = "GetRangeProof plainHash [] noIterator plainChainView (Some [0x79]) (Some [0x7a]) 2"
  let ?c = "GetRangeProof plainHash [] noIterator plainChainView None None 2"
  have "\<not> isl (fst ?a)" by code_simp
  then have ra: "?a = (Inr (projr (fst ?a)), snd ?a)" by (metis prod.collapse sum.collapse(2))
  have "\<not> isl (fst ?b)" by code_simp
  then have rb: "?b = (Inr (projr (fst ?b)), snd ?b)" by (metis prod.collapse sum.collapse(2))
  have "\<not> isl (fst ?c)" by code_simp
  then have rc: "?c = (Inr (projr (fst ?c)), snd ?c)" by (metis prod.collapse sum.collapse(2))
  have oa: "inOrderFrom (Some [0x78]) chainIterator"
    by (simp add: inOrderFrom_def chainIterator_def)
  have ob: "inOrderFrom (Some [0x79]) noIterator" and oc: "inOrderFrom None noIterator"
    by (simp_all add: inOrderFrom_def noIterator_def)
  have ka: "map kv_Key (KeyValues (projr (fst ?a))) = [[0x78], [0x78, 0x61]]" by code_simp
  have pa: "map pn_Key (EndProof (projr (fst ?a))) = [[], [0x78], [0x78, 0x61]]" by code_simp
  have kb: "KeyValues (projr (fst ?b)) = []" by code_simp
  have kc: "KeyValues (projr (fst ?c)) = [] \<and> StartProof (projr (fst ?c)) = []" by code_simp
  note A = GetRangeProof_contents [OF ra oa]
    and B = GetRangeProof_contents [OF rb ob]
    and C = GetRangeProof_contents [OF rc oc]
  have la: "int (length (KeyValues (projr (fst ?a)))) \<le> 2" using A by blast
  have ea: "\<exists>p. fst (getProof plainHash (snd (calculateNodeIDs plainHash [] plainChainView)) [0x78, 0x61]) = Inr p
          \<and> EndProof (projr (fst ?a)) = proof_Path p"
  proof -
    have "KeyValues (projr (fst ?a)) \<noteq> []" using ka by auto
    moreover have "kv_Key (last (KeyValues (projr (fst ?a)))) = [0x78, 0x61]" by code_simp
    ultimately show ?thesis using A by metis
  qed
  have eb: "\<exists>p. fst (getProof plainHash (snd (calculateNodeIDs plainHash [] plainChainView)) [0x7a]) = Inr p
          \<and> EndProof (projr (fst ?b)) = proof_Path p"
    using B kb by blast
  have ec: "\<exists>p. fst (getProof plainHash (snd (calculateNodeIDs plainHash [] plainChainView)) rootKey) = Inr p
          \<and> EndProof (projr (fst ?c)) = proof_Path p"
    using C kc by blast
  from oa ka la pa ea ob kb eb oc kc ec show ?thesis by blast
qed

subsection \<open>The two overlays on the same removals\<close>

text \<open>
  C7 fails on the code, by the defect of \<open>remove\<close> (see C1 and C8). Both overlays
  start from the trie of "x", "xa", "xab" and "xac", and both delete "xab" and "xa";
  each applies its recorded deletions in the order of a Go map, which is any order.
  With "xab" first and "xa" second, neither overlay returns an error, and the node "x"
  has the only child "xac" (the entry "a" with the compressed key "c") in both; but
  the stateless view keeps the value of "x", as \<open>removeFromTrie\<close> returns when the
  walk does not end on the key, and \<open>trieView\<close> clears it. With "xa" first and "xab"
  second the two overlays agree on the node "x", and the stateless view gives the same
  node in both orders.
\<close>

theorem remove_differs_from_stateless:
  "fst (applyValueChanges chainView [[0x78, 0x61, 0x62], [0x78, 0x61]]) = None
   \<and> fst (getNode (snd (applyValueChanges chainView [[0x78, 0x61, 0x62], [0x78, 0x61]])) [0x78] True)
       = Inr 2
   \<and> nvalue (heap (snd (applyValueChanges chainView [[0x78, 0x61, 0x62], [0x78, 0x61]])) 2) = None
   \<and> map (\<lambda>(index, entry). (index, compressedKey entry))
         (children (heap (snd (applyValueChanges chainView [[0x78, 0x61, 0x62], [0x78, 0x61]])) 2))
       = [(0x61, [0x63])]
   \<and> map_option fst (removeFromTrie (snd (the (removeFromTrie chainStateless [0x78, 0x61, 0x62])))
                        [0x78, 0x61]) = Some None
   \<and> fst (getNodeWithID (snd (the (removeFromTrie (snd (the (removeFromTrie chainStateless
                 [0x78, 0x61, 0x62]))) [0x78, 0x61]))) ids_Empty [0x78] 0) = Inr 1
   \<and> N_value (heap_sv (snd (the (removeFromTrie (snd (the (removeFromTrie chainStateless
                 [0x78, 0x61, 0x62]))) [0x78, 0x61]))) 1) = Some [0]
   \<and> map (\<lambda>(index, entry). (index, compressedPath entry))
         (N_children (heap_sv (snd (the (removeFromTrie (snd (the (removeFromTrie chainStateless
                 [0x78, 0x61, 0x62]))) [0x78, 0x61]))) 1))
       = [(0x61, [0x63])]
   \<and> nvalue (heap (snd (applyValueChanges chainView [[0x78, 0x61, 0x62], [0x78, 0x61]])) 2)
       \<noteq> N_value (heap_sv (snd (the (removeFromTrie (snd (the (removeFromTrie chainStateless
                 [0x78, 0x61, 0x62]))) [0x78, 0x61]))) 1)
   \<and> fst (applyValueChanges chainView [[0x78, 0x61], [0x78, 0x61, 0x62]]) = None
   \<and> fst (getNode (snd (applyValueChanges chainView [[0x78, 0x61], [0x78, 0x61, 0x62]])) [0x78] True)
       = Inr 2
   \<and> nvalue (heap (snd (applyValueChanges chainView [[0x78, 0x61], [0x78, 0x61, 0x62]])) 2) = Some [0]
   \<and> map (\<lambda>(index, entry). (index, compressedKey entry))
         (children (heap (snd (applyValueChanges chainView [[0x78, 0x61], [0x78, 0x61, 0x62]])) 2))
       = [(0x61, [0x63])]
   \<and> map_option fst (removeFromTrie (snd (the (removeFromTrie chainStateless [0x78, 0x61])))
                        [0x78, 0x61, 0x62]) = Some None
   \<and> fst (getNodeWithID (snd (the (removeFromTrie (snd (the (removeFromTrie chainStateless
                 [0x78, 0x61]))) [0x78, 0x61, 0x62]))) ids_Empty [0x78] 0) = Inr 1
   \<and> N_value (heap_sv (snd (the (removeFromTrie (snd (the (removeFromTrie chainStateless
                 [0x78, 0x61]))) [0x78, 0x61, 0x62]))) 1) = Some [0]
   \<and> map (\<lambda>(index, entry). (index, compressedPath entry))
         (N_children (heap_sv (snd (the (removeFromTrie (snd (the (removeFromTrie chainStateless
                 [0x78, 0x61]))) [0x78, 0x61, 0x62]))) 1))
       = [(0x61, [0x63])]"
  by code_simp

text \<open>
  The removals of the stateless view in that run are real ones: each walk of
  \<open>removeFromTrie\<close> ends on the key it removes, at a node with a value, so neither call
  returns at its test; and the values of the node "x" differ between the two overlays.
\<close>

theorem remove_differs_from_stateless_witness:
  "N_key (heap_sv (snd (getPathTo chainStateless [0x78, 0x61, 0x62]))
            (last (projr (fst (getPathTo chainStateless [0x78, 0x61, 0x62])))))
     = [0x78, 0x61, 0x62]
   \<and> hasValue_sv (heap_sv (snd (getPathTo chainStateless [0x78, 0x61, 0x62]))
            (last (projr (fst (getPathTo chainStateless [0x78, 0x61, 0x62])))))
   \<and> N_key (heap_sv (snd (getPathTo (snd (the (removeFromTrie chainStateless [0x78, 0x61, 0x62])))
                                [0x78, 0x61]))
            (last (projr (fst (getPathTo (snd (the (removeFromTrie chainStateless [0x78, 0x61, 0x62])))
                                [0x78, 0x61])))))
     = [0x78, 0x61]
   \<and> hasValue_sv (heap_sv (snd (getPathTo (snd (the (removeFromTrie chainStateless [0x78, 0x61, 0x62])))
                                [0x78, 0x61]))
            (last (projr (fst (getPathTo (snd (the (removeFromTrie chainStateless [0x78, 0x61, 0x62])))
                                [0x78, 0x61])))))
   \<and> nvalue (heap (snd (applyValueChanges chainView [[0x78, 0x61, 0x62], [0x78, 0x61]])) 2)
       \<noteq> N_value (heap_sv (snd (the (removeFromTrie (snd (the (removeFromTrie chainStateless
                 [0x78, 0x61, 0x62]))) [0x78, 0x61]))) 1)"
proof -
  have landed: "N_key (heap_sv (snd (getPathTo chainStateless [0x78, 0x61, 0x62]))
            (last (projr (fst (getPathTo chainStateless [0x78, 0x61, 0x62])))))
     = [0x78, 0x61, 0x62]
   \<and> hasValue_sv (heap_sv (snd (getPathTo chainStateless [0x78, 0x61, 0x62]))
            (last (projr (fst (getPathTo chainStateless [0x78, 0x61, 0x62])))))
   \<and> N_key (heap_sv (snd (getPathTo (snd (the (removeFromTrie chainStateless [0x78, 0x61, 0x62])))
                                [0x78, 0x61]))
            (last (projr (fst (getPathTo (snd (the (removeFromTrie chainStateless [0x78, 0x61, 0x62])))
                                [0x78, 0x61])))))
     = [0x78, 0x61]
   \<and> hasValue_sv (heap_sv (snd (getPathTo (snd (the (removeFromTrie chainStateless [0x78, 0x61, 0x62])))
                                [0x78, 0x61]))
            (last (projr (fst (getPathTo (snd (the (removeFromTrie chainStateless [0x78, 0x61, 0x62])))
                                [0x78, 0x61])))))"
    by code_simp
  from remove_differs_from_stateless
  have differ: "nvalue (heap (snd (applyValueChanges chainView [[0x78, 0x61, 0x62], [0x78, 0x61]])) 2)
       \<noteq> N_value (heap_sv (snd (the (removeFromTrie (snd (the (removeFromTrie chainStateless
                 [0x78, 0x61, 0x62]))) [0x78, 0x61]))) 1)"
    by blast
  from landed differ show ?thesis by blast
qed

end
